theory Spec2Isabelle
  imports Main "HOL-Library.Sublist" "HOL-Library.Signed_Division"
begin

section \<open>JavaScript strings and arrays, as far as \<open>parser.ts\<close> uses them\<close>

text \<open>
  A JavaScript string is a sequence of code units; the model is \<open>string\<close>, one
  \<open>char\<close> per code unit below 256. The white space that \<open>trim\<close>, \<open>trimStart\<close> and
  \<open>trimEnd\<close> remove is, in that range: TAB, LF, VT, FF, CR, SPACE and NBSP.
\<close>

definition is_ws :: "char \<Rightarrow> bool" where
  "is_ws c = (c = CHR 0x09 \<or> c = CHR 0x0A \<or> c = CHR 0x0B \<or> c = CHR 0x0C
            \<or> c = CHR 0x0D \<or> c = CHR 0x20 \<or> c = CHR 0xA0)"

definition trimStart :: "string \<Rightarrow> string" where
  "trimStart s = dropWhile is_ws s"

definition trimEnd :: "string \<Rightarrow> string" where
  "trimEnd s = rev (dropWhile is_ws (rev s))"

definition trim :: "string \<Rightarrow> string" where
  "trim s = trimEnd (trimStart s)"

definition startsWith :: "string \<Rightarrow> string \<Rightarrow> bool" where
  "startsWith s p = prefix p s"

text \<open>\<open>s.indexOf(c)\<close>: the index of the first occurrence, \<open>-1\<close> when there is none.\<close>

fun indexOf :: "string \<Rightarrow> char \<Rightarrow> int" where
  "indexOf [] c = - 1"
| "indexOf (x # xs) c =
     (if x = c then 0 else (let r = indexOf xs c in if r < 0 then - 1 else r + 1))"

text \<open>\<open>s.substring(a, b)\<close> and \<open>s.substring(a)\<close>, which clamp their arguments to the string.\<close>

definition substring :: "string \<Rightarrow> int \<Rightarrow> int \<Rightarrow> string" where
  "substring s a b =
     (let len = int (length s);
          a' = min (max a 0) len;
          b' = min (max b 0) len;
          lo = min a' b';
          hi = max a' b'
      in take (nat (hi - lo)) (drop (nat lo) s))"

definition substring_from :: "string \<Rightarrow> int \<Rightarrow> string" where
  "substring_from s a = substring s a (int (length s))"

text \<open>\<open>content.split('\n')\<close>: never an empty array.\<close>

fun split_nl :: "string \<Rightarrow> string list" where
  "split_nl [] = [[]]"
| "split_nl (c # cs) =
     (if c = CHR 0x0A then [] # split_nl cs
      else (case split_nl cs of [] \<Rightarrow> [[c]] | l # ls \<Rightarrow> (c # l) # ls))"

text \<open>\<open>xs.join('\n')\<close>.\<close>

fun join_nl :: "string list \<Rightarrow> string" where
  "join_nl [] = []"
| "join_nl [l] = l"
| "join_nl (l # ls) = l @ CHR 0x0A # join_nl ls"

text \<open>\<open>xs.slice(a, b)\<close>, negative arguments counting from the end.\<close>

definition slice :: "'a list \<Rightarrow> int \<Rightarrow> int \<Rightarrow> 'a list" where
  "slice xs a b =
     (let len = int (length xs);
          k = (if a < 0 then max (len + a) 0 else min a len);
          fin = (if b < 0 then max (len + b) 0 else min b len)
      in take (nat (fin - k)) (drop (nat k) xs))"

text \<open>
  Reading \<open>lines[i]\<close> out of range gives \<open>undefined\<close>, and every such read in the parser is
  followed by a method call on the result, which throws a \<open>TypeError\<close>. The model makes that
  a value.
\<close>

datatype js_error = TypeError

definition line_at :: "string list \<Rightarrow> int \<Rightarrow> js_error + string" where
  "line_at lines i = (if 0 \<le> i \<and> i < int (length lines) then Inr (lines ! nat i) else Inl TypeError)"

section \<open>The document parser (\<open>frontend/src/lib/parser.ts\<close>)\<close>

text \<open>
  \<open>headers\<close> is a plain object used as a dictionary; the model is the map of its own
  properties. An assignment \<open>headers[k] = v\<close> creates or overwrites the own property \<open>k\<close>,
  except for the key \<open>__proto__\<close>, which every object literal inherits as an accessor:
  assigning a string to it changes nothing.
\<close>

type_synonym header_map = "string \<rightharpoonup> string"

definition set_prop :: "header_map \<Rightarrow> string \<Rightarrow> string \<Rightarrow> header_map" where
  "set_prop h k v = (if k = ''__proto__'' then h else h(k \<mapsto> v))"

record RequestBlock =
  "method" :: string
  url :: string
  headers :: header_map
  body :: string
  startLine :: int
  endLine :: int
  methodLine :: int

definition HTTP_METHODS :: "string list" where
  "HTTP_METHODS = [''GET'', ''POST'', ''PUT'', ''PATCH'', ''DELETE'', ''HEAD'', ''OPTIONS'']"

text \<open>The class \<open>\w\<close> of a regular expression without flags.\<close>

definition is_word :: "char \<Rightarrow> bool" where
  "is_word c =
     (let n = (of_char c :: nat)
      in (97 \<le> n \<and> n \<le> 122) \<or> (65 \<le> n \<and> n \<le> 90) \<or> (48 \<le> n \<and> n \<le> 57) \<or> n = 95)"

text \<open>
  The alternative \<open>\w+\.\w\<close> at the start of a string: the dot is no word character, so
  \<open>\w+\<close> can only stand for the whole leading run of word characters.
\<close>

definition word_dot_word :: "string \<Rightarrow> bool" where
  "word_dot_word u =
     (takeWhile is_word u \<noteq> [] \<and>
      (case dropWhile is_word u of
         d # c # _ \<Rightarrow> d = CHR ''.'' \<and> is_word c
       | _ \<Rightarrow> False))"

text \<open>The test \<open>/^(https?:\/\/|\/|{{|\w+\.\w)/\<close>.\<close>

definition url_shape :: "string \<Rightarrow> bool" where
  "url_shape u = (startsWith u ''http://'' \<or> startsWith u ''https://'' \<or> startsWith u ''/''
                \<or> startsWith u ''{{'' \<or> word_dot_word u)"

text \<open>The test \<open>/^https?:\/\//\<close>.\<close>

definition bare_url :: "string \<Rightarrow> bool" where
  "bare_url line = (startsWith line ''http://'' \<or> startsWith line ''https://'')"

fun looksLikeMethodLine_loop :: "string list \<Rightarrow> string \<Rightarrow> bool" where
  "looksLikeMethodLine_loop [] line = bare_url line"
| "looksLikeMethodLine_loop (m # ms) line =
     (if startsWith line (m @ '' '') then
        (let u = trim (substring_from line (int (length m) + 1))
         in if url_shape u then True else looksLikeMethodLine_loop ms line)
      else looksLikeMethodLine_loop ms line)"

definition looksLikeMethodLine :: "string \<Rightarrow> bool" where
  "looksLikeMethodLine line = looksLikeMethodLine_loop HTTP_METHODS line"

fun parseMethodUrl_loop :: "string list \<Rightarrow> string \<Rightarrow> string \<times> string" where
  "parseMethodUrl_loop [] line =
     (if startsWith line ''http://'' \<or> startsWith line ''https://'' then (''GET'', line)
      else ([], []))"
| "parseMethodUrl_loop (m # ms) line =
     (if startsWith line (m @ '' '') then (m, trim (substring_from line (int (length m) + 1)))
      else parseMethodUrl_loop ms line)"

definition parseMethodUrl :: "string \<Rightarrow> string \<times> string" where
  "parseMethodUrl line = parseMethodUrl_loop HTTP_METHODS line"

text \<open>
  The header loop of \<open>buildBlock\<close>, from index \<open>i\<close>: it returns the headers and
  \<open>bodyStart\<close>, which stays \<open>-1\<close> when the loop ends without a blank line.
\<close>

function buildBlock_loop :: "string list \<Rightarrow> int \<Rightarrow> int \<Rightarrow> header_map \<Rightarrow> js_error + (header_map \<times> int)" where
  "buildBlock_loop lines i en h =
     (if i \<le> en then
        (case line_at lines i of
           Inl e \<Rightarrow> Inl e
         | Inr l \<Rightarrow>
             if trim l = [] then Inr (h, i + 1)
             else (let colonIdx = indexOf l CHR '':''
                   in buildBlock_loop lines (i + 1) en
                        (if colonIdx > 0
                         then set_prop h (trim (substring l 0 colonIdx))
                                         (trim (substring_from l (colonIdx + 1)))
                         else h)))
      else Inr (h, - 1))"
  by pat_completeness auto
termination
  by (relation "measure (\<lambda>(lines, i, en, h). nat (en + 1 - i))") auto

definition buildBlock :: "string list \<Rightarrow> int \<Rightarrow> int \<Rightarrow> int \<Rightarrow> js_error + RequestBlock option" where
  "buildBlock lines start en mLine =
     (case line_at lines mLine of
        Inl e \<Rightarrow> Inl e
      | Inr ml \<Rightarrow>
          (case parseMethodUrl (trim ml) of
             (m, u) \<Rightarrow>
               if m = [] then Inr None
               else (case buildBlock_loop lines (mLine + 1) en Map.empty of
                       Inl e \<Rightarrow> Inl e
                     | Inr (h, bodyStart) \<Rightarrow>
                         Inr (Some \<lparr> method = m, url = u, headers = h,
                                     body = (if bodyStart > 0 \<and> bodyStart \<le> en
                                             then trimEnd (join_nl (slice lines bodyStart (en + 1)))
                                             else []),
                                     startLine = start, endLine = en, methodLine = mLine \<rparr>))))"

text \<open>The variables the closure \<open>flush\<close> shares with the loop of \<open>parseHttpFile\<close>.\<close>

record parser_state =
  blocks :: "RequestBlock list"
  blockStart :: int
  currentMethodLine :: int

text \<open>The \<open>while\<close> loop of \<open>flush\<close>, which steps \<open>endLine\<close> back over blank lines.\<close>

function flush_loop :: "string list \<Rightarrow> int \<Rightarrow> int \<Rightarrow> js_error + int" where
  "flush_loop lines cml endL =
     (if endL > cml then
        (case line_at lines endL of
           Inl e \<Rightarrow> Inl e
         | Inr l \<Rightarrow> if trim l = [] then flush_loop lines cml (endL - 1) else Inr endL)
      else Inr endL)"
  by pat_completeness auto
termination
  by (relation "measure (\<lambda>(lines, cml, endL). nat (endL - cml))") auto

definition flush :: "string list \<Rightarrow> parser_state \<Rightarrow> int \<Rightarrow> js_error + parser_state" where
  "flush lines st endL =
     (if currentMethodLine st < 0 then Inr st
      else (case flush_loop lines (currentMethodLine st) endL of
              Inl e \<Rightarrow> Inl e
            | Inr endL' \<Rightarrow>
                (case buildBlock lines (blockStart st) endL' (currentMethodLine st) of
                   Inl e \<Rightarrow> Inl e
                 | Inr blk \<Rightarrow>
                     Inr (st \<lparr> blocks := (case blk of None \<Rightarrow> blocks st
                                                   | Some b \<Rightarrow> blocks st @ [b]),
                               currentMethodLine := - 1 \<rparr>))))"

text \<open>One iteration of the \<open>for\<close> loop of \<open>parseHttpFile\<close>, at line \<open>i\<close>.\<close>

definition parse_step :: "string list \<Rightarrow> int \<Rightarrow> parser_state \<Rightarrow> js_error + parser_state" where
  "parse_step lines i st =
     (case line_at lines i of
        Inl e \<Rightarrow> Inl e
      | Inr l \<Rightarrow>
          (let trimmed = trim l in
           if startsWith trimmed ''###'' then
             (case flush lines st (i - 1) of
                Inl e \<Rightarrow> Inl e
              | Inr st1 \<Rightarrow> Inr (st1 \<lparr> blockStart := i \<rparr>))
           else if looksLikeMethodLine trimmed then
             (case (if currentMethodLine st \<ge> 0
                    then (case flush lines st (i - 1) of
                            Inl e \<Rightarrow> Inl e
                          | Inr st1 \<Rightarrow> Inr (st1 \<lparr> blockStart := i \<rparr>))
                    else Inr st) of
                Inl e \<Rightarrow> Inl e
              | Inr st2 \<Rightarrow>
                  (let st3 = (if currentMethodLine st2 < 0 \<and> blockStart st2 > i
                              then st2 \<lparr> blockStart := i \<rparr> else st2)
                   in Inr (st3 \<lparr> currentMethodLine := i \<rparr>)))
           else Inr st))"

function parse_loop :: "string list \<Rightarrow> int \<Rightarrow> parser_state \<Rightarrow> js_error + parser_state" where
  "parse_loop lines i st =
     (if i < int (length lines) then
        (case parse_step lines i st of
           Inl e \<Rightarrow> Inl e
         | Inr st' \<Rightarrow> parse_loop lines (i + 1) st')
      else Inr st)"
  by pat_completeness auto
termination
  by (relation "measure (\<lambda>(lines, i, st). nat (int (length lines) - i))") auto

definition parseHttpFile :: "string \<Rightarrow> js_error + RequestBlock list" where
  "parseHttpFile content =
     (let lines = split_nl content in
      case parse_loop lines 0 \<lparr> blocks = [], blockStart = 0, currentMethodLine = - 1 \<rparr> of
        Inl e \<Rightarrow> Inl e
      | Inr st \<Rightarrow>
          (case flush lines st (int (length lines) - 1) of
             Inl e \<Rightarrow> Inl e
           | Inr st' \<Rightarrow> Inr (blocks st')))"

fun findRequestAtLine :: "RequestBlock list \<Rightarrow> int \<Rightarrow> RequestBlock option" where
  "findRequestAtLine [] line = None"
| "findRequestAtLine (block # rest) line =
     (if line \<ge> startLine block \<and> line \<le> endLine block then Some block
      else findRequestAtLine rest line)"

section \<open>The request executor (\<open>app.go\<close>)\<close>

text \<open>
  A Go string is a sequence of bytes: \<open>string\<close>. An \<open>error\<close> is kept as its message
  \<open>err.Error()\<close>, and a call that returns \<open>(value, error)\<close> as a sum, \<open>Inl\<close> the message.

  The executor talks to the world through the monotonic clock and the HTTP client. The
  world is a state: the reading of the clock in nanoseconds, and the requests handed to
  the transport so far, in order.
\<close>

record http_Request =
  req_Method :: string
  req_URL :: string
  req_Header :: "string \<rightharpoonup> string list"
  req_Body :: "string option"

text \<open>
  The body of a response is a reader: the payload the response carries, whether reading it
  fails (after how many bytes, and with which error), and the time the read takes.
\<close>

record body_reader =
  payload :: string
  read_fails :: "(nat \<times> string) option"
  read_nanos :: nat

record http_Response =
  StatusCode :: int
  Header :: "string \<rightharpoonup> string list"
  resp_Body :: body_reader

record world =
  clock :: int
  wire :: "http_Request list"

text \<open>
  The client \<open>a.client\<close>, an injected capability: what a call of \<open>Do\<close> returns for a
  request in a world, and the nanoseconds the call takes.
\<close>

record client =
  roundTrip :: "world \<Rightarrow> http_Request \<Rightarrow> string + http_Response"
  do_nanos :: "world \<Rightarrow> http_Request \<Rightarrow> nat"

definition client_Do :: "client \<Rightarrow> http_Request \<Rightarrow> world \<Rightarrow> (string + http_Response) \<times> world" where
  "client_Do c req w =
     (roundTrip c w req,
      w \<lparr> clock := clock w + int (do_nanos c w req), wire := wire w @ [req] \<rparr>)"

text \<open>
  \<open>io.ReadAll\<close> of the standard library returns the bytes it has read and the error that
  ended the read: the whole payload and no error, or the bytes before the failure and its
  error.
\<close>

definition bytes_read :: "body_reader \<Rightarrow> string" where
  "bytes_read r = (case read_fails r of None \<Rightarrow> payload r | Some (n, _) \<Rightarrow> take n (payload r))"

definition io_ReadAll :: "body_reader \<Rightarrow> world \<Rightarrow> (string \<times> string option) \<times> world" where
  "io_ReadAll r w =
     ((bytes_read r, map_option snd (read_fails r)),
      w \<lparr> clock := clock w + int (read_nanos r) \<rparr>)"

text \<open>
  \<open>http.NewRequest\<close> of the standard library. Its checks of the method and of the URL are
  the parameter \<open>invalid\<close>, which gives the message of the error when one fails. The
  request it returns has the method (\<open>GET\<close> for the empty one), the URL, the body and an
  empty header.
\<close>

definition http_NewRequest ::
  "(string \<Rightarrow> string \<Rightarrow> string option) \<Rightarrow> string \<Rightarrow> string \<Rightarrow> string option \<Rightarrow> string + http_Request" where
  "http_NewRequest invalid m u b =
     (case invalid m u of
        Some err \<Rightarrow> Inl err
      | None \<Rightarrow> Inr \<lparr> req_Method = (if m = [] then ''GET'' else m), req_URL = u,
                      req_Header = Map.empty, req_Body = b \<rparr>)"

text \<open>
  \<open>Header.Set\<close> and \<open>Header.Get\<close> of the standard library, over its
  \<open>CanonicalMIMEHeaderKey\<close>, the parameter \<open>canon\<close>: \<open>Set\<close> replaces the values of the
  canonical key by the one value, \<open>Get\<close> returns the first value of the canonical key, or
  the empty string.
\<close>

definition Header_Set ::
  "(string \<Rightarrow> string) \<Rightarrow> (string \<rightharpoonup> string list) \<Rightarrow> string \<Rightarrow> string \<Rightarrow> (string \<rightharpoonup> string list)" where
  "Header_Set canon h key v = h(canon key \<mapsto> [v])"

definition Header_Get :: "(string \<Rightarrow> string) \<Rightarrow> (string \<rightharpoonup> string list) \<Rightarrow> string \<Rightarrow> string" where
  "Header_Get canon h key = (case h (canon key) of None \<Rightarrow> [] | Some [] \<Rightarrow> [] | Some (v # _) \<Rightarrow> v)"

text \<open>
  \<open>time.Since(start)\<close> on readings of the monotonic clock: the difference as an
  \<open>int64\<close> of nanoseconds, which the library holds at the largest and the smallest
  \<open>Duration\<close> when it overflows. \<open>Duration.Milliseconds\<close> is the integer division by
  \<open>1e6\<close>, which rounds towards zero.
\<close>

definition time_Since :: "world \<Rightarrow> int \<Rightarrow> int" where
  "time_Since w start =
     (let d = clock w - start
      in if d > 9223372036854775807 then 9223372036854775807
         else if d < - 9223372036854775808 then - 9223372036854775808
         else d)"

definition Milliseconds :: "int \<Rightarrow> int" where
  "Milliseconds d = d sdiv 1000000"

record Response =
  Status :: int
  Headers :: "string \<rightharpoonup> string"
  Body :: string
  Duration :: int
  Error :: string

text \<open>
  \<open>Execute\<close>. A \<open>Response\<close> literal leaves the fields it does not name at their zero
  values. The loop over \<open>resp.Header\<close> assigns each key of the map once, so the order in
  which it visits them does not show in \<open>headers\<close>. The deferred \<open>resp.Body.Close()\<close>
  changes nothing the model holds.
\<close>

definition Execute ::
  "(string \<Rightarrow> string \<Rightarrow> string option) \<Rightarrow> (string \<Rightarrow> string) \<Rightarrow> client
   \<Rightarrow> string \<Rightarrow> string \<Rightarrow> string \<Rightarrow> world \<Rightarrow> Response \<times> world" where
  "Execute invalid canon a m u b w =
     (let start = clock w;
          requestBody = (if b \<noteq> [] then Some b else None)
      in case http_NewRequest invalid m u requestBody of
           Inl err \<Rightarrow>
             (\<lparr> Status = 0, Headers = Map.empty, Body = [], Duration = 0, Error = err \<rparr>, w)
         | Inr req0 \<Rightarrow>
             (let req = (if b \<noteq> []
                         then req0 \<lparr> req_Header :=
                                Header_Set canon (req_Header req0) ''Content-Type'' ''application/json'' \<rparr>
                         else req0)
              in case client_Do a req w of
                   (Inl err, w1) \<Rightarrow>
                     (\<lparr> Status = 0, Headers = Map.empty, Body = [],
                        Duration = Milliseconds (time_Since w1 start), Error = err \<rparr>, w1)
                 | (Inr resp, w1) \<Rightarrow>
                     (case io_ReadAll (resp_Body resp) w1 of
                        ((respBody, _), w2) \<Rightarrow>
                          (\<lparr> Status = StatusCode resp,
                             Headers = (\<lambda>key. case Header resp key of
                                                None \<Rightarrow> None
                                              | Some _ \<Rightarrow> Some (Header_Get canon (Header resp) key)),
                             Body = respBody,
                             Duration = Milliseconds (time_Since w2 start),
                             Error = [] \<rparr>, w2))))"

text \<open>
  The flattening the specification words for the headers of a result: the values a response
  has for a name, joined into one string, here with a comma and a space between them.
\<close>

fun joined :: "string list \<Rightarrow> string" where
  "joined [] = []"
| "joined [v] = v"
| "joined (v # vs) = v @ '', '' @ joined vs"

section \<open>Notions the statements and the proofs use\<close>

text \<open>
  What one round of the header loop of \<open>buildBlock\<close> does to the headers, on a line that
  is not blank.
\<close>

definition header_step :: "header_map \<Rightarrow> string \<Rightarrow> header_map" where
  "header_step h l =
     (let colonIdx = indexOf l CHR '':''
      in if colonIdx > 0
         then set_prop h (trim (substring l 0 colonIdx)) (trim (substring_from l (colonIdx + 1)))
         else h)"

text \<open>The lines \<open>i\<close> to \<open>en\<close>, both included.\<close>

definition seg :: "string list \<Rightarrow> int \<Rightarrow> int \<Rightarrow> string list" where
  "seg lines i en = take (nat (en + 1 - i)) (drop (nat i) lines)"

text \<open>The loops call a line blank when nothing is left of it after \<open>trim\<close>.\<close>

definition nonblank :: "string \<Rightarrow> bool" where
  "nonblank l = (trim l \<noteq> [])"

text \<open>
  The header region of a block with method line \<open>mLine\<close> and last line \<open>en\<close>: the lines
  after the method line, up to the first blank line or else to the last line of the block.
\<close>

definition header_region :: "string list \<Rightarrow> int \<Rightarrow> int \<Rightarrow> string list" where
  "header_region lines mLine en = takeWhile nonblank (seg lines (mLine + 1) en)"

text \<open>
  How the loop of \<open>parseHttpFile\<close> reads a line: as a separator, or else as a method line,
  or else as neither.
\<close>

definition is_separator :: "string \<Rightarrow> bool" where
  "is_separator l = startsWith (trim l) ''###''"

definition is_method_line :: "string \<Rightarrow> bool" where
  "is_method_line l = (\<not> is_separator l \<and> looksLikeMethodLine (trim l))"

text \<open>
  What holds of every block the parser has pushed: its three indices are in order and inside
  the document, it is what \<open>buildBlock\<close> returns for them, its method line is a method
  line, no later line of it is a separator or a method line, and, past the method line, it
  does not end in a blank line.
\<close>

definition block_ok :: "string list \<Rightarrow> RequestBlock \<Rightarrow> bool" where
  "block_ok lines b \<longleftrightarrow>
     0 \<le> startLine b \<and> startLine b \<le> methodLine b \<and> methodLine b \<le> endLine b
     \<and> endLine b < int (length lines)
     \<and> buildBlock lines (startLine b) (endLine b) (methodLine b) = Inr (Some b)
     \<and> is_method_line (lines ! nat (methodLine b))
     \<and> (\<forall>j. methodLine b < j \<and> j \<le> endLine b \<longrightarrow>
            \<not> is_separator (lines ! nat j) \<and> \<not> is_method_line (lines ! nat j))
     \<and> (endLine b = methodLine b \<or> trim (lines ! nat (endLine b)) \<noteq> [])"

text \<open>
  The invariant of the loop of \<open>parseHttpFile\<close> before it reads line \<open>i\<close>: the open block
  starts at or before \<open>i\<close>; the current method line, when there is one, is a method line
  inside the open block with no separator and no method line after it; the blocks pushed so
  far are as above, end before the open block starts, and lie one after the other; and
  every method line read so far is the current one or that of a pushed block.
\<close>

definition parser_inv :: "string list \<Rightarrow> int \<Rightarrow> parser_state \<Rightarrow> bool" where
  "parser_inv lines i st \<longleftrightarrow>
     0 \<le> blockStart st \<and> blockStart st \<le> i
     \<and> (currentMethodLine st = - 1 \<or>
          (blockStart st \<le> currentMethodLine st \<and> currentMethodLine st < i
           \<and> is_method_line (lines ! nat (currentMethodLine st))
           \<and> (\<forall>j. currentMethodLine st < j \<and> j < i \<longrightarrow>
                  \<not> is_separator (lines ! nat j) \<and> \<not> is_method_line (lines ! nat j))))
     \<and> (\<forall>b\<in>set (blocks st). block_ok lines b \<and> endLine b < blockStart st)
     \<and> sorted_wrt (\<lambda>a b. endLine a < startLine b) (blocks st)
     \<and> (\<forall>j. 0 \<le> j \<and> j < i \<and> is_method_line (lines ! nat j) \<longrightarrow>
            j = currentMethodLine st \<or> (\<exists>b\<in>set (blocks st). methodLine b = j))"

text \<open>What the invariant leaves of the blocks \<open>parseHttpFile\<close> returns.\<close>

definition parse_post :: "string list \<Rightarrow> RequestBlock list \<Rightarrow> bool" where
  "parse_post lines bs \<longleftrightarrow>
     (\<forall>b\<in>set bs. block_ok lines b)
     \<and> sorted_wrt (\<lambda>a b. endLine a < startLine b) bs
     \<and> (\<forall>j. 0 \<le> j \<and> j < int (length lines) \<and> is_method_line (lines ! nat j) \<longrightarrow>
            (\<exists>b\<in>set bs. methodLine b = j))"

text \<open>
  The value of \<open>bodyStart\<close> after the header loop: the index after the first blank line of
  the block, or \<open>-1\<close>.
\<close>

definition body_start :: "string list \<Rightarrow> int \<Rightarrow> int \<Rightarrow> int" where
  "body_start lines mLine en =
     (if length (header_region lines mLine en) < length (seg lines (mLine + 1) en)
      then mLine + int (length (header_region lines mLine en)) + 2 else - 1)"

text \<open>
  The key and the value the header loop of \<open>buildBlock\<close> reads from a line whose first colon
  is at an index above 0.
\<close>

definition header_key :: "string \<Rightarrow> string" where
  "header_key l = trim (substring l 0 (indexOf l CHR '':''))"

definition header_value :: "string \<Rightarrow> string" where
  "header_value l = trim (substring_from l (indexOf l CHR '':'' + 1))"

text \<open>
  A comment line, as the specification words it and as \<open>classifyLines\<close> of the editor
  decides it on the line without its leading white space: it starts with \<open>#\<close> but not
  with \<open>###\<close>, or it starts with \<open>//\<close>.
\<close>

definition is_comment :: "string \<Rightarrow> bool" where
  "is_comment t = (\<not> startsWith t ''###'' \<and> (startsWith t ''#'' \<or> startsWith t ''//''))"

declare buildBlock_loop.simps [simp del]
declare flush_loop.simps [simp del]
declare parse_loop.simps [simp del]

section \<open>Strings\<close>

lemma trimEnd_last: "trimEnd s = [] \<or> \<not> is_ws (last (trimEnd s))"
proof (cases "dropWhile is_ws (rev s)")
  case Nil
  then show ?thesis by (simp add: trimEnd_def)
next
  case (Cons x xs)
  then have "\<not> is_ws x" by (metis hd_dropWhile list.sel(1) list.distinct(1))
  with Cons show ?thesis by (simp add: trimEnd_def)
qed

lemma trimEnd_Nil_iff: "trimEnd s = [] \<longleftrightarrow> (\<forall>c\<in>set s. is_ws c)"
  by (auto simp: trimEnd_def dropWhile_eq_Nil_conv)

lemma trim_Nil_iff: "trim s = [] \<longleftrightarrow> (\<forall>c\<in>set s. is_ws c)"
proof -
  have "trim s = [] \<longleftrightarrow> (\<forall>c\<in>set (dropWhile is_ws s). is_ws c)"
    by (simp add: trim_def trimStart_def trimEnd_Nil_iff)
  also have "\<dots> \<longleftrightarrow> dropWhile is_ws s = []"
    by (metis hd_dropWhile list.set_sel(1) empty_iff list.set(1))
  also have "\<dots> \<longleftrightarrow> (\<forall>c\<in>set s. is_ws c)"
    by (simp add: dropWhile_eq_Nil_conv)
  finally show ?thesis .
qed

section \<open>The loops of the parser and their invariant\<close>

lemma seg_Nil: "en < i \<Longrightarrow> seg lines i en = []"
  by (simp add: seg_def)

lemma seg_Cons: "0 \<le> i \<Longrightarrow> i \<le> en \<Longrightarrow> en < int (length lines) \<Longrightarrow>
  seg lines i en = lines ! nat i # seg lines (i + 1) en"
proof -
  assume a: "0 \<le> i" "i \<le> en" "en < int (length lines)"
  then have l: "nat i < length lines" by linarith
  have n: "nat (en + 1 - i) = Suc (nat (en + 1 - (i + 1)))" using a by linarith
  have d: "drop (nat i) lines = lines ! nat i # drop (nat (i + 1)) lines"
    using l a by (simp add: Cons_nth_drop_Suc nat_add_distrib)
  show ?thesis unfolding seg_def n d by simp
qed

lemma length_seg: "0 \<le> i \<Longrightarrow> en < int (length lines) \<Longrightarrow> length (seg lines i en) = nat (en + 1 - i)"
  by (auto simp: seg_def)

lemma seg_nth: "0 \<le> i \<Longrightarrow> en < int (length lines) \<Longrightarrow> k < nat (en + 1 - i) \<Longrightarrow>
  seg lines i en ! k = lines ! nat (i + int k)"
  by (simp add: seg_def nat_add_distrib)

lemma buildBlock_loop_eq:
  "0 \<le> i \<Longrightarrow> en < int (length lines) \<Longrightarrow>
   buildBlock_loop lines i en h =
     Inr (foldl header_step h (takeWhile nonblank (seg lines i en)),
          if length (takeWhile nonblank (seg lines i en)) < length (seg lines i en)
          then i + int (length (takeWhile nonblank (seg lines i en))) + 1 else - 1)"
proof (induction lines i en h rule: buildBlock_loop.induct)
  case (1 lines i en h)
  show ?case
  proof (cases "i \<le> en")
    case False
    then show ?thesis by (subst buildBlock_loop.simps) (simp add: seg_Nil)
  next
    case True
    have la: "line_at lines i = Inr (lines ! nat i)"
      using True 1(2,3) by (simp add: line_at_def)
    have sc: "seg lines i en = lines ! nat i # seg lines (i + 1) en"
      using True 1(2,3) by (rule_tac seg_Cons) auto
    show ?thesis
    proof (cases "trim (lines ! nat i) = []")
      case True
      then have nb: "\<not> nonblank (lines ! nat i)" by (simp add: nonblank_def)
      have "buildBlock_loop lines i en h = Inr (h, i + 1)"
        using \<open>i \<le> en\<close> la True by (subst buildBlock_loop.simps) simp
      then show ?thesis unfolding sc using nb by simp
    next
      case False
      have hs: "(if indexOf (lines ! nat i) CHR '':'' > 0
                 then set_prop h (trim (substring (lines ! nat i) 0 (indexOf (lines ! nat i) CHR '':'')))
                                 (trim (substring_from (lines ! nat i) (indexOf (lines ! nat i) CHR '':'' + 1)))
                 else h) = header_step h (lines ! nat i)"
        by (simp add: header_step_def Let_def)
      have step: "buildBlock_loop lines i en h =
                  buildBlock_loop lines (i + 1) en (header_step h (lines ! nat i))"
        by (subst buildBlock_loop.simps) (simp only: True la False hs Let_def sum.case if_True if_False)
      have ih: "buildBlock_loop lines (i + 1) en (header_step h (lines ! nat i)) =
        Inr (foldl header_step (header_step h (lines ! nat i)) (takeWhile nonblank (seg lines (i + 1) en)),
          if length (takeWhile nonblank (seg lines (i + 1) en)) < length (seg lines (i + 1) en)
          then i + 1 + int (length (takeWhile nonblank (seg lines (i + 1) en))) + 1 else - 1)"
        using 1(1)[OF True la False refl] 1(2,3)
        by (simp only: hs)
      have nb: "nonblank (lines ! nat i)" using False by (simp add: nonblank_def)
      show ?thesis
        unfolding step ih sc using nb by simp
    qed
  qed
qed

lemma flush_loop_ok:
  "0 \<le> cml \<Longrightarrow> en < int (length lines) \<Longrightarrow>
   \<exists>e. flush_loop lines cml en = Inr e \<and> e \<le> en \<and> (cml \<le> en \<longrightarrow> cml \<le> e)
      \<and> (cml < e \<longrightarrow> trim (lines ! nat e) \<noteq> [])
      \<and> (\<forall>j. e < j \<and> j \<le> en \<longrightarrow> trim (lines ! nat j) = [])"
proof (induction lines cml en rule: flush_loop.induct)
  case (1 lines cml en)
  show ?case
  proof (cases "en > cml")
    case False
    then show ?thesis by (subst flush_loop.simps) auto
  next
    case True
    have la: "line_at lines en = Inr (lines ! nat en)"
      using True 1(2,3) by (simp add: line_at_def)
    show ?thesis
    proof (cases "trim (lines ! nat en) = []")
      case False
      have "flush_loop lines cml en = Inr en"
        using True la False by (subst flush_loop.simps) simp
      moreover have "\<forall>j. en < j \<and> j \<le> en \<longrightarrow> trim (lines ! nat j) = []" by auto
      ultimately show ?thesis using True False by blast
    next
      case blank: True
      from 1(1)[OF True la blank] 1(2,3)
      obtain e where e: "flush_loop lines cml (en - 1) = Inr e" "e \<le> en - 1"
        "cml \<le> en - 1 \<longrightarrow> cml \<le> e" "cml < e \<longrightarrow> trim (lines ! nat e) \<noteq> []"
        "\<forall>j. e < j \<and> j \<le> en - 1 \<longrightarrow> trim (lines ! nat j) = []"
        by auto
      have "\<forall>j. e < j \<and> j \<le> en \<longrightarrow> trim (lines ! nat j) = []"
      proof (intro allI impI)
        fix j assume "e < j \<and> j \<le> en"
        then have "j \<le> en - 1 \<or> j = en" by linarith
        then show "trim (lines ! nat j) = []" using e(5) blank \<open>e < j \<and> j \<le> en\<close> by auto
      qed
      with e True la blank show ?thesis
        by (subst flush_loop.simps) auto
    qed
  qed
qed

lemma looksLike_loop_method:
  "looksLikeMethodLine_loop ms t \<Longrightarrow> [] \<notin> set ms \<Longrightarrow> fst (parseMethodUrl_loop ms t) \<noteq> []"
  by (induction ms) (auto simp: bare_url_def Let_def split: if_splits)

lemma looksLike_method: "looksLikeMethodLine t \<Longrightarrow> fst (parseMethodUrl t) \<noteq> []"
  unfolding looksLikeMethodLine_def parseMethodUrl_def
  by (rule looksLike_loop_method) (simp_all add: HTTP_METHODS_def)

lemma buildBlock_ok:
  assumes "0 \<le> m" "m < int (length lines)" "en < int (length lines)"
    and "looksLikeMethodLine (trim (lines ! nat m))"
  shows "\<exists>b. buildBlock lines s en m = Inr (Some b) \<and> startLine b = s \<and> endLine b = en
            \<and> methodLine b = m"
proof -
  have la: "line_at lines m = Inr (lines ! nat m)" using assms by (simp add: line_at_def)
  obtain mm u where pm: "parseMethodUrl (trim (lines ! nat m)) = (mm, u)" by fastforce
  with looksLike_method[OF assms(4)] have ne: "mm \<noteq> []" by simp
  have lp: "buildBlock_loop lines (m + 1) en Map.empty =
     Inr (foldl header_step Map.empty (takeWhile nonblank (seg lines (m + 1) en)),
          if length (takeWhile nonblank (seg lines (m + 1) en)) < length (seg lines (m + 1) en)
          then m + 1 + int (length (takeWhile nonblank (seg lines (m + 1) en))) + 1 else - 1)"
    using assms by (intro buildBlock_loop_eq) auto
  show ?thesis
    using ne by (simp add: buildBlock_def la pm lp)
qed

lemma flush_none: "currentMethodLine st < 0 \<Longrightarrow> flush lines st e = Inr st"
  by (simp add: flush_def)

lemma flush_ok:
  assumes inv: "parser_inv lines i st" and i: "i \<le> int (length lines)"
    and c: "currentMethodLine st \<ge> 0"
  shows "\<exists>b. flush lines st (i - 1) = Inr (st \<lparr> blocks := blocks st @ [b], currentMethodLine := - 1 \<rparr>)
            \<and> block_ok lines b \<and> startLine b = blockStart st \<and> endLine b \<le> i - 1
            \<and> methodLine b = currentMethodLine st"
proof -
  let ?c = "currentMethodLine st"
  from inv c have f: "0 \<le> blockStart st" "blockStart st \<le> ?c" "?c < i"
    "is_method_line (lines ! nat ?c)"
    "\<forall>j. ?c < j \<and> j < i \<longrightarrow> \<not> is_separator (lines ! nat j) \<and> \<not> is_method_line (lines ! nat j)"
    unfolding parser_inv_def by auto
  have "0 \<le> ?c" "i - 1 < int (length lines)" using f i by auto
  from flush_loop_ok[OF this] obtain e where e: "flush_loop lines ?c (i - 1) = Inr e"
    "e \<le> i - 1" "?c \<le> e" "?c < e \<longrightarrow> trim (lines ! nat e) \<noteq> []"
    using f by auto
  have "\<exists>b. buildBlock lines (blockStart st) e ?c = Inr (Some b) \<and> startLine b = blockStart st
     \<and> endLine b = e \<and> methodLine b = ?c"
    using f i e by (intro buildBlock_ok) (auto simp: is_method_line_def)
  then obtain b where b: "buildBlock lines (blockStart st) e ?c = Inr (Some b)"
    "startLine b = blockStart st" "endLine b = e" "methodLine b = ?c" by blast
  have ok: "block_ok lines b"
    unfolding block_ok_def using b f e i by auto
  have "flush lines st (i - 1) = Inr (st \<lparr> blocks := blocks st @ [b], currentMethodLine := - 1 \<rparr>)"
    using c e b by (simp add: flush_def)
  with ok b e show ?thesis by blast
qed

lemma inv_cml_cases: "parser_inv lines i st \<Longrightarrow> currentMethodLine st = - 1 \<or> 0 \<le> currentMethodLine st"
  unfolding parser_inv_def by auto

lemma inv_after_flush:
  assumes inv: "parser_inv lines i st" and i: "0 \<le> i" "i < int (length lines)"
  shows "\<exists>st1. flush lines st (i - 1) = Inr st1 \<and> currentMethodLine st1 = - 1
           \<and> parser_inv lines i (st1 \<lparr> blockStart := i \<rparr>)
           \<and> (\<forall>j. 0 \<le> j \<and> j < i \<and> is_method_line (lines ! nat j) \<longrightarrow>
                  (\<exists>b\<in>set (blocks st1). methodLine b = j))"
proof (cases "currentMethodLine st = - 1")
  case True
  then have "flush lines st (i - 1) = Inr st" by (simp add: flush_none)
  moreover have "parser_inv lines i (st \<lparr> blockStart := i \<rparr>)"
    using inv True i unfolding parser_inv_def by auto
  moreover have "\<forall>j. 0 \<le> j \<and> j < i \<and> is_method_line (lines ! nat j) \<longrightarrow>
                  (\<exists>b\<in>set (blocks st). methodLine b = j)"
    using inv True unfolding parser_inv_def by auto
  ultimately show ?thesis using True by auto
next
  case False
  with inv_cml_cases[OF inv] have c: "0 \<le> currentMethodLine st" by auto
  from flush_ok[OF inv _ c] i obtain b where
    b: "flush lines st (i - 1) = Inr (st \<lparr> blocks := blocks st @ [b], currentMethodLine := - 1 \<rparr>)"
      "block_ok lines b" "startLine b = blockStart st" "endLine b \<le> i - 1"
      "methodLine b = currentMethodLine st"
    by auto
  let ?st1 = "st \<lparr> blocks := blocks st @ [b], currentMethodLine := - 1 \<rparr>"
  have old: "\<forall>a\<in>set (blocks st). block_ok lines a \<and> endLine a < blockStart st"
    and srt: "sorted_wrt (\<lambda>a b. endLine a < startLine b) (blocks st)"
    and bs: "0 \<le> blockStart st" "blockStart st \<le> i"
    and cov: "\<forall>j. 0 \<le> j \<and> j < i \<and> is_method_line (lines ! nat j) \<longrightarrow>
            j = currentMethodLine st \<or> (\<exists>b\<in>set (blocks st). methodLine b = j)"
    using inv unfolding parser_inv_def by auto
  have srt': "sorted_wrt (\<lambda>a b. endLine a < startLine b) (blocks st @ [b])"
    using srt old b(3) by (auto simp: sorted_wrt_append)
  have cov': "\<forall>j. 0 \<le> j \<and> j < i \<and> is_method_line (lines ! nat j) \<longrightarrow>
                  (\<exists>a\<in>set (blocks st @ [b]). methodLine a = j)"
    using cov b(5) by auto
  have blk: "\<forall>a\<in>set (blocks st @ [b]). block_ok lines a \<and> endLine a < i"
    using old b(2,4) bs by auto
  have "parser_inv lines i (?st1 \<lparr> blockStart := i \<rparr>)"
    unfolding parser_inv_def using i srt' cov' blk by simp
  with b(1) cov' show ?thesis by auto
qed

lemma parse_step_inv:
  assumes inv: "parser_inv lines i st" and i: "0 \<le> i" "i < int (length lines)"
  shows "\<exists>st'. parse_step lines i st = Inr st' \<and> parser_inv lines (i + 1) st'"
proof -
  have la: "line_at lines i = Inr (lines ! nat i)" using i by (simp add: line_at_def)
  let ?l = "lines ! nat i"
  consider (sep) "is_separator ?l" | (meth) "is_method_line ?l"
    | (other) "\<not> is_separator ?l" "\<not> is_method_line ?l" by blast
  then show ?thesis
  proof cases
    case sep
    from inv_after_flush[OF inv i] obtain st1 where
      st1: "flush lines st (i - 1) = Inr st1" "currentMethodLine st1 = - 1"
        "parser_inv lines i (st1 \<lparr> blockStart := i \<rparr>)" by blast
    have nm: "\<not> is_method_line ?l" using sep by (simp add: is_method_line_def)
    have "parse_step lines i st = Inr (st1 \<lparr> blockStart := i \<rparr>)"
      using sep st1(1) la by (simp add: parse_step_def is_separator_def)
    moreover have "parser_inv lines (i + 1) (st1 \<lparr> blockStart := i \<rparr>)"
      using st1(2,3) nm unfolding parser_inv_def
      by (auto simp: order_le_less)
    ultimately show ?thesis by blast
  next
    case meth
    then have ns: "\<not> startsWith (trim ?l) ''###''" and lk: "looksLikeMethodLine (trim ?l)"
      by (auto simp: is_method_line_def is_separator_def)
    show ?thesis
    proof (cases "currentMethodLine st \<ge> 0")
      case True
      from inv_after_flush[OF inv i] obtain st1 where
        st1: "flush lines st (i - 1) = Inr st1" "currentMethodLine st1 = - 1"
          "parser_inv lines i (st1 \<lparr> blockStart := i \<rparr>)"
          "\<forall>j. 0 \<le> j \<and> j < i \<and> is_method_line (lines ! nat j) \<longrightarrow>
                  (\<exists>b\<in>set (blocks st1). methodLine b = j)" by blast
      have "parse_step lines i st = Inr (st1 \<lparr> blockStart := i, currentMethodLine := i \<rparr>)"
        using ns lk st1(1,2) la True by (simp add: parse_step_def Let_def)
      moreover have "parser_inv lines (i + 1) (st1 \<lparr> blockStart := i, currentMethodLine := i \<rparr>)"
        using st1(2,3,4) meth i unfolding parser_inv_def
        by (auto simp: order_le_less)
      ultimately show ?thesis by blast
    next
      case False
      with inv_cml_cases[OF inv] have c: "currentMethodLine st = - 1" by auto
      have bs: "blockStart st \<le> i" using inv unfolding parser_inv_def by auto
      have "parse_step lines i st = Inr (st \<lparr> currentMethodLine := i \<rparr>)"
        using ns lk la c bs by (simp add: parse_step_def Let_def)
      moreover have "parser_inv lines (i + 1) (st \<lparr> currentMethodLine := i \<rparr>)"
        using inv c meth i unfolding parser_inv_def
        by (auto simp: order_le_less)
      ultimately show ?thesis by blast
    qed
  next
    case other
    then have ns: "\<not> startsWith (trim ?l) ''###''" and lk: "\<not> looksLikeMethodLine (trim ?l)"
      by (auto simp: is_method_line_def is_separator_def)
    have "parse_step lines i st = Inr st"
      using ns lk la by (simp add: parse_step_def Let_def)
    moreover have "parser_inv lines (i + 1) st"
      using inv other i unfolding parser_inv_def
      by (auto simp: order_le_less)
    ultimately show ?thesis by blast
  qed
qed

lemma parse_loop_inv:
  "parser_inv lines i st \<Longrightarrow> 0 \<le> i \<Longrightarrow> i \<le> int (length lines) \<Longrightarrow>
   \<exists>st'. parse_loop lines i st = Inr st' \<and> parser_inv lines (int (length lines)) st'"
proof (induction lines i st rule: parse_loop.induct)
  case (1 lines i st)
  show ?case
  proof (cases "i < int (length lines)")
    case False
    with 1(4) have "i = int (length lines)" by simp
    with 1(2) False show ?thesis by (subst parse_loop.simps) simp
  next
    case True
    from parse_step_inv[OF 1(2,3) True] obtain st1 where
      st1: "parse_step lines i st = Inr st1" "parser_inv lines (i + 1) st1" by blast
    from 1(1)[OF True st1(1) st1(2)] 1(3) True obtain st' where
      "parse_loop lines (i + 1) st1 = Inr st'" "parser_inv lines (int (length lines)) st'"
      by auto
    with True st1(1) show ?thesis by (subst parse_loop.simps) simp
  qed
qed

lemma parser_inv_init:
  "parser_inv lines 0 \<lparr> blocks = [], blockStart = 0, currentMethodLine = - 1 \<rparr>"
  by (simp add: parser_inv_def)

lemma final_flush:
  assumes inv: "parser_inv lines (int (length lines)) st"
  shows "\<exists>st'. flush lines st (int (length lines) - 1) = Inr st' \<and> parse_post lines (blocks st')"
proof (cases "currentMethodLine st = - 1")
  case True
  then have "flush lines st (int (length lines) - 1) = Inr st" by (simp add: flush_none)
  moreover have "parse_post lines (blocks st)"
    using inv True unfolding parser_inv_def parse_post_def by auto
  ultimately show ?thesis by auto
next
  case False
  with inv_cml_cases[OF inv] have c: "0 \<le> currentMethodLine st" by auto
  from flush_ok[OF inv _ c] obtain b where
    b: "flush lines st (int (length lines) - 1)
          = Inr (st \<lparr> blocks := blocks st @ [b], currentMethodLine := - 1 \<rparr>)"
      "block_ok lines b" "startLine b = blockStart st"
      "methodLine b = currentMethodLine st"
    by auto
  have old: "\<forall>a\<in>set (blocks st). block_ok lines a \<and> endLine a < blockStart st"
    and srt: "sorted_wrt (\<lambda>a b. endLine a < startLine b) (blocks st)"
    and cov: "\<forall>j. 0 \<le> j \<and> j < int (length lines) \<and> is_method_line (lines ! nat j) \<longrightarrow>
            j = currentMethodLine st \<or> (\<exists>b\<in>set (blocks st). methodLine b = j)"
    using inv unfolding parser_inv_def by auto
  have "parse_post lines (blocks st @ [b])"
    unfolding parse_post_def using old srt cov b(2,3,4) by (auto simp: sorted_wrt_append)
  with b(1) show ?thesis by auto
qed

lemma parseHttpFile_post:
  "\<exists>bs. parseHttpFile content = Inr bs \<and> parse_post (split_nl content) bs"
proof -
  let ?lines = "split_nl content"
  from parse_loop_inv[OF parser_inv_init, of ?lines] obtain st where
    st: "parse_loop ?lines 0 \<lparr> blocks = [], blockStart = 0, currentMethodLine = - 1 \<rparr> = Inr st"
      "parser_inv ?lines (int (length ?lines)) st" by auto
  from final_flush[OF st(2)] obtain st' where
    "flush ?lines st (int (length ?lines) - 1) = Inr st'" "parse_post ?lines (blocks st')" by blast
  with st(1) show ?thesis by (simp add: parseHttpFile_def Let_def)
qed

lemma parseHttpFile_blocks:
  "parseHttpFile content = Inr bs \<Longrightarrow> parse_post (split_nl content) bs"
  using parseHttpFile_post[of content] by auto

text \<open>The equations that evaluate the parser on a concrete document.\<close>

lemmas parser_eval = parseHttpFile_def parse_step_def flush_def buildBlock_def line_at_def Let_def
  trim_def trimEnd_def trimStart_def is_ws_def startsWith_def looksLikeMethodLine_def
  HTTP_METHODS_def substring_from_def substring_def url_shape_def bare_url_def
  parseMethodUrl_def set_prop_def parse_loop.simps flush_loop.simps buildBlock_loop.simps
  slice_def word_dot_word_def is_word_def

lemma sorted_blocks_nth:
  assumes "sorted_wrt (\<lambda>a b. endLine a < startLine b) bs" "i < j" "j < length bs"
  shows "endLine (bs ! i) < startLine (bs ! j)"
  using assms by (simp add: sorted_wrt_iff_nth_less)

section \<open>Block ranges\<close>

text \<open>
  C2. For every input text the parser returns, and every returned block satisfies
  \<open>startLine \<le> methodLine \<le> endLine\<close>, with zero-based indices into the lines of the
  document; the inclusive ranges of blocks at distinct positions do not overlap; and the
  sequence is in ascending order of \<open>startLine\<close>.
\<close>

theorem parse_ranges_ordered:
  "\<exists>bs. parseHttpFile content = Inr bs
     \<and> (\<forall>b\<in>set bs. 0 \<le> startLine b \<and> startLine b \<le> methodLine b \<and> methodLine b \<le> endLine b
                     \<and> endLine b < int (length (split_nl content)))
     \<and> (\<forall>i<length bs. \<forall>j<length bs. i \<noteq> j \<longrightarrow>
            {startLine (bs ! i)..endLine (bs ! i)} \<inter> {startLine (bs ! j)..endLine (bs ! j)} = {})
     \<and> sorted_wrt (\<lambda>a b. startLine a < startLine b) bs"
proof -
  from parseHttpFile_post[of content] obtain bs where
    bs: "parseHttpFile content = Inr bs" and post: "parse_post (split_nl content) bs" by blast
  have ok: "\<forall>b\<in>set bs. block_ok (split_nl content) b"
    and srt: "sorted_wrt (\<lambda>a b. endLine a < startLine b) bs"
    using post unfolding parse_post_def by auto
  have rng: "\<forall>b\<in>set bs. 0 \<le> startLine b \<and> startLine b \<le> methodLine b \<and> methodLine b \<le> endLine b
                     \<and> endLine b < int (length (split_nl content))"
    using ok unfolding block_ok_def by auto
  have dis: "\<forall>i<length bs. \<forall>j<length bs. i \<noteq> j \<longrightarrow>
            {startLine (bs ! i)..endLine (bs ! i)} \<inter> {startLine (bs ! j)..endLine (bs ! j)} = {}"
  proof (intro allI impI)
    fix i j assume i: "i < length bs" and j: "j < length bs" and ne: "i \<noteq> j"
    from ne consider "i < j" | "j < i" by linarith
    then show "{startLine (bs ! i)..endLine (bs ! i)} \<inter> {startLine (bs ! j)..endLine (bs ! j)} = {}"
    proof cases
      case 1
      from sorted_blocks_nth[OF srt 1 j] show ?thesis by auto
    next
      case 2
      from sorted_blocks_nth[OF srt 2 i] show ?thesis by auto
    qed
  qed
  have asc: "sorted_wrt (\<lambda>a b. startLine a < startLine b) bs"
    unfolding sorted_wrt_iff_nth_less
  proof (intro allI impI)
    fix i j assume ij: "i < j" and j: "j < length bs"
    then have "bs ! i \<in> set bs" by simp
    with rng have "startLine (bs ! i) \<le> endLine (bs ! i)" by fastforce
    with sorted_blocks_nth[OF srt ij j] show "startLine (bs ! i) < startLine (bs ! j)" by simp
  qed
  from bs rng dis asc show ?thesis by blast
qed

theorem parse_ranges_ordered_witness:
  "parseHttpFile (''### A'' @ [CHR 0x0A] @ ''GET /a'' @ [CHR 0x0A] @ ''K: v'' @ [CHR 0x0A, CHR 0x0A]
                  @ ''### B'' @ [CHR 0x0A] @ ''http://b'')
     = Inr [\<lparr>method = ''GET'', url = ''/a'', headers = [''K'' \<mapsto> ''v''], body = [],
             startLine = 0, endLine = 2, methodLine = 1\<rparr>,
            \<lparr>method = ''GET'', url = ''http://b'', headers = Map.empty, body = [],
             startLine = 4, endLine = 5, methodLine = 5\<rparr>]
   \<and> {0..2::int} \<inter> {4..5} = {}
   \<and> sorted_wrt (\<lambda>a b. startLine a < startLine b)
        [\<lparr>method = ''GET'', url = ''/a'', headers = [''K'' \<mapsto> ''v''], body = [],
             startLine = 0, endLine = 2, methodLine = 1\<rparr>,
         \<lparr>method = ''GET'', url = ''http://b'', headers = Map.empty, body = [],
             startLine = 4, endLine = 5, methodLine = 5\<rparr>]"
proof -
  let ?doc = "''### A'' @ [CHR 0x0A] @ ''GET /a'' @ [CHR 0x0A] @ ''K: v'' @ [CHR 0x0A, CHR 0x0A]
                  @ ''### B'' @ [CHR 0x0A] @ ''http://b''"
  let ?b1 = "\<lparr>method = ''GET'', url = ''/a'', headers = [''K'' \<mapsto> ''v''], body = [],
             startLine = 0, endLine = 2, methodLine = 1\<rparr>"
  let ?b2 = "\<lparr>method = ''GET'', url = ''http://b'', headers = Map.empty, body = [],
             startLine = 4, endLine = 5, methodLine = 5\<rparr>"
  have ev: "parseHttpFile ?doc = Inr [?b1, ?b2]" by (simp add: parser_eval)
  from parse_ranges_ordered[of ?doc] obtain bs where
    bs: "parseHttpFile ?doc = Inr bs"
      "\<forall>i<length bs. \<forall>j<length bs. i \<noteq> j \<longrightarrow>
            {startLine (bs ! i)..endLine (bs ! i)} \<inter> {startLine (bs ! j)..endLine (bs ! j)} = {}"
      "sorted_wrt (\<lambda>a b. startLine a < startLine b) bs" by blast
  from bs(1) ev have eq: "bs = [?b1, ?b2]" by simp
  from bs(2)[unfolded eq, rule_format, of 0 1] have "{0..2::int} \<inter> {4..5} = {}" by simp
  with ev bs(3)[unfolded eq] show ?thesis by blast
qed

section \<open>The fields of a returned block\<close>

lemma buildBlock_loop_region:
  assumes "0 \<le> m" "en < int (length lines)"
  shows "buildBlock_loop lines (m + 1) en Map.empty =
     Inr (foldl header_step Map.empty (header_region lines m en), body_start lines m en)"
proof -
  have "buildBlock_loop lines (m + 1) en Map.empty =
     Inr (foldl header_step Map.empty (takeWhile nonblank (seg lines (m + 1) en)),
          if length (takeWhile nonblank (seg lines (m + 1) en)) < length (seg lines (m + 1) en)
          then m + 1 + int (length (takeWhile nonblank (seg lines (m + 1) en))) + 1 else - 1)"
    using assms by (intro buildBlock_loop_eq) auto
  then show ?thesis by (simp add: header_region_def body_start_def)
qed

lemma buildBlock_fields:
  assumes bb: "buildBlock lines s en m = Inr (Some b)"
    and r: "0 \<le> m" "m < int (length lines)" "en < int (length lines)"
  shows "method b = fst (parseMethodUrl (trim (lines ! nat m)))"
    and "url b = snd (parseMethodUrl (trim (lines ! nat m)))"
    and "headers b = foldl header_step Map.empty (header_region lines m en)"
    and "body b =
          (if 0 < body_start lines m en \<and> body_start lines m en \<le> en
           then trimEnd (join_nl (slice lines (body_start lines m en) (en + 1)))
           else [])"
proof -
  have la: "line_at lines m = Inr (lines ! nat m)" using r by (simp add: line_at_def)
  obtain mm u where pm: "parseMethodUrl (trim (lines ! nat m)) = (mm, u)" by fastforce
  note lp = buildBlock_loop_region[OF r(1,3)]
  from bb have b: "b = \<lparr> method = mm, url = u,
       headers = foldl header_step Map.empty (header_region lines m en),
       body = (if 0 < body_start lines m en \<and> body_start lines m en \<le> en
               then trimEnd (join_nl (slice lines (body_start lines m en) (en + 1)))
               else []),
       startLine = s, endLine = en, methodLine = m \<rparr>"
    by (auto simp: buildBlock_def la pm lp split: if_splits)
  show "method b = fst (parseMethodUrl (trim (lines ! nat m)))" by (subst b) (simp add: pm)
  show "url b = snd (parseMethodUrl (trim (lines ! nat m)))" by (subst b) (simp add: pm)
  show "headers b = foldl header_step Map.empty (header_region lines m en)" by (subst b) simp
  show "body b =
          (if 0 < body_start lines m en \<and> body_start lines m en \<le> en
           then trimEnd (join_nl (slice lines (body_start lines m en) (en + 1)))
           else [])" by (subst b) simp
qed

lemma block_ok_fields:
  assumes "block_ok lines b"
  shows "method b = fst (parseMethodUrl (trim (lines ! nat (methodLine b))))"
    and "url b = snd (parseMethodUrl (trim (lines ! nat (methodLine b))))"
    and "headers b = foldl header_step Map.empty (header_region lines (methodLine b) (endLine b))"
    and "body b =
          (if 0 < body_start lines (methodLine b) (endLine b)
              \<and> body_start lines (methodLine b) (endLine b) \<le> endLine b
           then trimEnd (join_nl (slice lines (body_start lines (methodLine b) (endLine b))
                                               (endLine b + 1)))
           else [])"
proof -
  from assms have bb: "buildBlock lines (startLine b) (endLine b) (methodLine b) = Inr (Some b)"
    and r: "0 \<le> methodLine b" "methodLine b < int (length lines)" "endLine b < int (length lines)"
    unfolding block_ok_def by auto
  note f = buildBlock_fields[OF bb r]
  show "method b = fst (parseMethodUrl (trim (lines ! nat (methodLine b))))" by (rule f(1))
  show "url b = snd (parseMethodUrl (trim (lines ! nat (methodLine b))))" by (rule f(2))
  show "headers b = foldl header_step Map.empty (header_region lines (methodLine b) (endLine b))"
    by (rule f(3))
  show "body b =
          (if 0 < body_start lines (methodLine b) (endLine b)
              \<and> body_start lines (methodLine b) (endLine b) \<le> endLine b
           then trimEnd (join_nl (slice lines (body_start lines (methodLine b) (endLine b))
                                               (endLine b + 1)))
           else [])" by (rule f(4))
qed

lemma looksLike_loop_no_verb:
  "\<forall>m\<in>set ms. \<not> startsWith t (m @ '' '') \<Longrightarrow> looksLikeMethodLine_loop ms t = bare_url t"
  by (induction ms) auto

lemma parseMethodUrl_loop_no_verb:
  "\<forall>m\<in>set ms. \<not> startsWith t (m @ '' '') \<Longrightarrow>
   parseMethodUrl_loop ms t = (if bare_url t then (''GET'', t) else ([], []))"
  by (induction ms) (auto simp: bare_url_def)

lemma bare_url_not_sep: "bare_url t \<Longrightarrow> \<not> startsWith t ''###''"
  by (auto simp: bare_url_def startsWith_def prefix_def)

section \<open>Bare URLs\<close>

lemma no_verb_line:
  assumes nv: "\<forall>m\<in>set HTTP_METHODS. \<not> startsWith t (m @ '' '')"
  shows "(looksLikeMethodLine t \<longleftrightarrow> bare_url t)
       \<and> (bare_url t \<longrightarrow> parseMethodUrl t = (''GET'', t))
       \<and> (\<forall>content bs b. parseHttpFile content = Inr bs \<and> b \<in> set bs
              \<and> trim (split_nl content ! nat (methodLine b)) = t
            \<longrightarrow> bare_url t \<and> method b = ''GET'' \<and> url b = t)
       \<and> (\<forall>content bs j. parseHttpFile content = Inr bs \<and> 0 \<le> j
              \<and> j < int (length (split_nl content)) \<and> trim (split_nl content ! nat j) = t
              \<and> bare_url t
            \<longrightarrow> (\<exists>b\<in>set bs. methodLine b = j \<and> method b = ''GET'' \<and> url b = t))"
proof -
  have lk: "looksLikeMethodLine t \<longleftrightarrow> bare_url t"
    unfolding looksLikeMethodLine_def using nv by (rule looksLike_loop_no_verb)
  have pm: "parseMethodUrl t = (if bare_url t then (''GET'', t) else ([], []))"
    unfolding parseMethodUrl_def using nv by (rule parseMethodUrl_loop_no_verb)
  have blk: "bare_url t \<and> method b = ''GET'' \<and> url b = t"
    if "parseHttpFile content = Inr bs" "b \<in> set bs"
      "trim (split_nl content ! nat (methodLine b)) = t" for content bs b
  proof -
    from that(1,2) have ok: "block_ok (split_nl content) b"
      using parseHttpFile_blocks[of content bs] unfolding parse_post_def by auto
    then have "looksLikeMethodLine t"
      using that(3) unfolding block_ok_def is_method_line_def by auto
    with lk have bu: "bare_url t" by simp
    from block_ok_fields(1,2)[OF ok] that(3) pm bu show ?thesis by simp
  qed
  have cov: "\<exists>b\<in>set bs. methodLine b = j \<and> method b = ''GET'' \<and> url b = t"
    if "parseHttpFile content = Inr bs" "0 \<le> j" "j < int (length (split_nl content))"
      "trim (split_nl content ! nat j) = t" "bare_url t" for content bs j
  proof -
    have "is_method_line (split_nl content ! nat j)"
      using that(4,5) lk bare_url_not_sep[of t] by (simp add: is_method_line_def is_separator_def)
    with that(1,2,3) obtain b where b: "b \<in> set bs" "methodLine b = j"
      using parseHttpFile_blocks[of content bs] unfolding parse_post_def by blast
    with blk[OF that(1) b(1)] that(4) show ?thesis by auto
  qed
  from lk pm blk cov show ?thesis by (simp (no_asm_simp)) blast
qed

text \<open>
  C3. Take a trimmed line that does not start with one of the seven verbs followed by a
  space. It is a method line exactly when it starts with \<open>http://\<close> or with \<open>https://\<close>;
  \<open>parseMethodUrl\<close> reads such a line as method \<open>GET\<close> with the whole trimmed line as the
  URL; a returned block whose method line is the line starts so and has method \<open>GET\<close> and the
  line as its URL; and every such line of a document is the method line of a returned block.
\<close>

theorem bare_url_implicit_get:
  assumes "\<forall>m\<in>set [''GET'', ''POST'', ''PUT'', ''PATCH'', ''DELETE'', ''HEAD'', ''OPTIONS''].
             \<not> prefix (m @ '' '') t"
  shows "(looksLikeMethodLine t \<longleftrightarrow> prefix ''http://'' t \<or> prefix ''https://'' t)
       \<and> (prefix ''http://'' t \<or> prefix ''https://'' t \<longrightarrow> parseMethodUrl t = (''GET'', t))
       \<and> (\<forall>content bs b. parseHttpFile content = Inr bs \<and> b \<in> set bs
              \<and> trim (split_nl content ! nat (methodLine b)) = t
            \<longrightarrow> (prefix ''http://'' t \<or> prefix ''https://'' t) \<and> method b = ''GET'' \<and> url b = t)
       \<and> (\<forall>content bs j. parseHttpFile content = Inr bs \<and> 0 \<le> j
              \<and> j < int (length (split_nl content)) \<and> trim (split_nl content ! nat j) = t
              \<and> (prefix ''http://'' t \<or> prefix ''https://'' t)
            \<longrightarrow> (\<exists>b\<in>set bs. methodLine b = j \<and> method b = ''GET'' \<and> url b = t))"
proof -
  have nv: "\<forall>m\<in>set HTTP_METHODS. \<not> startsWith t (m @ '' '')"
    using assms by (simp add: HTTP_METHODS_def startsWith_def)
  show ?thesis
    by (rule no_verb_line[OF nv, unfolded bare_url_def startsWith_def])
qed

theorem bare_url_implicit_get_witness:
  "looksLikeMethodLine ''http://b''
   \<and> parseMethodUrl ''http://b'' = (''GET'', ''http://b'')
   \<and> parseHttpFile ''  http://b '' =
        Inr [\<lparr>method = ''GET'', url = ''http://b'', headers = Map.empty, body = [],
               startLine = 0, endLine = 0, methodLine = 0\<rparr>]
   \<and> looksLikeMethodLine ''https://c''
   \<and> parseMethodUrl ''https://c'' = (''GET'', ''https://c'')
   \<and> parseHttpFile ''https://c'' =
        Inr [\<lparr>method = ''GET'', url = ''https://c'', headers = Map.empty, body = [],
               startLine = 0, endLine = 0, methodLine = 0\<rparr>]
   \<and> \<not> looksLikeMethodLine ''ftp://d''
   \<and> \<not> looksLikeMethodLine ''see http://b''"
proof -
  let ?b = "\<lparr>method = ''GET'', url = ''http://b'', headers = Map.empty, body = [],
               startLine = 0, endLine = 0, methodLine = 0\<rparr>"
  let ?c = "\<lparr>method = ''GET'', url = ''https://c'', headers = Map.empty, body = [],
               startLine = 0, endLine = 0, methodLine = 0\<rparr>"
  let ?verbs = "[''GET'', ''POST'', ''PUT'', ''PATCH'', ''DELETE'', ''HEAD'', ''OPTIONS'']"
  have nb: "\<forall>m\<in>set ?verbs. \<not> prefix (m @ '' '') ''http://b''" by simp
  have nc: "\<forall>m\<in>set ?verbs. \<not> prefix (m @ '' '') ''https://c''" by simp
  have nd: "\<forall>m\<in>set ?verbs. \<not> prefix (m @ '' '') ''ftp://d''" by simp
  have ne: "\<forall>m\<in>set ?verbs. \<not> prefix (m @ '' '') ''see http://b''" by simp
  have pb: "prefix ''http://'' ''http://b'' \<or> prefix ''https://'' ''http://b''" by simp
  have pc: "prefix ''http://'' ''https://c'' \<or> prefix ''https://'' ''https://c''" by simp
  have pd: "\<not> (prefix ''http://'' ''ftp://d'' \<or> prefix ''https://'' ''ftp://d'')" by simp
  have pe: "\<not> (prefix ''http://'' ''see http://b'' \<or> prefix ''https://'' ''see http://b'')"
    by simp
  note B = bare_url_implicit_get[OF nb]
  note C = bare_url_implicit_get[OF nc]
  note D = bare_url_implicit_get[OF nd]
  note E = bare_url_implicit_get[OF ne]
  have 1: "looksLikeMethodLine ''http://b''" using B[THEN conjunct1] pb by (rule iffD2)
  have 2: "parseMethodUrl ''http://b'' = (''GET'', ''http://b'')"
    using B[THEN conjunct2, THEN conjunct1] pb by (rule mp)
  have lb: "0 \<le> (0::int) \<and> (0::int) < int (length (split_nl ''  http://b ''))
            \<and> trim (split_nl ''  http://b '' ! nat 0) = ''http://b''"
    by (simp add: trim_def trimStart_def trimEnd_def is_ws_def)
  have lc: "0 \<le> (0::int) \<and> (0::int) < int (length (split_nl ''https://c''))
            \<and> trim (split_nl ''https://c'' ! nat 0) = ''https://c''"
    by (simp add: trim_def trimStart_def trimEnd_def is_ws_def)
  have eb: "parseHttpFile ''  http://b '' = Inr [?b]" by (simp add: parser_eval)
  have ec: "parseHttpFile ''https://c'' = Inr [?c]" by (simp add: parser_eval)
  from B[THEN conjunct2, THEN conjunct2, THEN conjunct2, rule_format, of "''  http://b ''" "[?b]" 0]
    eb lb pb
  have "\<exists>b\<in>set [?b]. methodLine b = 0 \<and> method b = ''GET'' \<and> url b = ''http://b''" by blast
  have 4: "looksLikeMethodLine ''https://c''" using C[THEN conjunct1] pc by (rule iffD2)
  have 5: "parseMethodUrl ''https://c'' = (''GET'', ''https://c'')"
    using C[THEN conjunct2, THEN conjunct1] pc by (rule mp)
  from C[THEN conjunct2, THEN conjunct2, THEN conjunct2, rule_format, of "''https://c''" "[?c]" 0]
    ec lc pc
  have "\<exists>b\<in>set [?c]. methodLine b = 0 \<and> method b = ''GET'' \<and> url b = ''https://c''" by blast
  have 7: "\<not> looksLikeMethodLine ''ftp://d''" using D[THEN conjunct1] pd by simp
  have 8: "\<not> looksLikeMethodLine ''see http://b''" using E[THEN conjunct1] pe by simp
  show ?thesis
    by (rule conjI[OF 1 conjI[OF 2 conjI[OF eb conjI[OF 4 conjI[OF 5 conjI[OF ec conjI[OF 7 8]]]]]]])
qed

section \<open>Looking up the block at a line\<close>

lemma findRequestAtLine_find:
  "findRequestAtLine bs line = List.find (\<lambda>b. startLine b \<le> line \<and> line \<le> endLine b) bs"
  by (induction bs) auto

lemma findRequestAtLine_sorted:
  assumes "sorted_wrt (\<lambda>a b. endLine a < startLine b) bs" "b \<in> set bs"
    "startLine b \<le> line" "line \<le> endLine b" "\<forall>a\<in>set bs. startLine a \<le> endLine a"
  shows "findRequestAtLine bs line = Some b"
  using assms
proof (induction bs)
  case Nil
  then show ?case by simp
next
  case (Cons a bs)
  show ?case
  proof (cases "b = a")
    case True
    with Cons.prems show ?thesis by simp
  next
    case False
    with Cons.prems have bin: "b \<in> set bs" by simp
    with Cons.prems have "endLine a < startLine b" by auto
    with Cons.prems have "\<not> (line \<ge> startLine a \<and> line \<le> endLine a)" by auto
    moreover have "findRequestAtLine bs line = Some b"
      using Cons.IH Cons.prems bin by auto
    ultimately show ?thesis by auto
  qed
qed

text \<open>
  C9. On the blocks parsed from a document, \<open>findRequestAtLine\<close> returns the first block in
  sequence order whose inclusive range holds the line; that is the block itself for every
  returned block and every line of its range, its first line (the separator line, where the
  block starts at one) included; and the result is absent when no range holds the line, in
  particular for every index past the last line of the document.
\<close>

theorem findRequestAtLine_parsed:
  assumes "parseHttpFile content = Inr bs"
  shows "findRequestAtLine bs line = List.find (\<lambda>b. startLine b \<le> line \<and> line \<le> endLine b) bs
       \<and> (\<forall>b\<in>set bs. startLine b \<le> line \<and> line \<le> endLine b \<longrightarrow> findRequestAtLine bs line = Some b)
       \<and> (\<forall>b\<in>set bs. findRequestAtLine bs (startLine b) = Some b)
       \<and> ((\<forall>b\<in>set bs. \<not> (startLine b \<le> line \<and> line \<le> endLine b)) \<longrightarrow> findRequestAtLine bs line = None)
       \<and> (int (length (split_nl content)) \<le> line \<longrightarrow> findRequestAtLine bs line = None)"
proof -
  from parseHttpFile_blocks[OF assms] have
    ok: "\<forall>b\<in>set bs. block_ok (split_nl content) b"
    and srt: "sorted_wrt (\<lambda>a b. endLine a < startLine b) bs"
    unfolding parse_post_def by auto
  have rng: "\<forall>b\<in>set bs. startLine b \<le> endLine b \<and> endLine b < int (length (split_nl content))"
    using ok unfolding block_ok_def by auto
  then have le: "\<forall>a\<in>set bs. startLine a \<le> endLine a" by auto
  have 1: "findRequestAtLine bs line = List.find (\<lambda>b. startLine b \<le> line \<and> line \<le> endLine b) bs"
    by (rule findRequestAtLine_find)
  have 2: "\<forall>b\<in>set bs. startLine b \<le> line \<and> line \<le> endLine b \<longrightarrow> findRequestAtLine bs line = Some b"
    using findRequestAtLine_sorted[OF srt _ _ _ le] by blast
  have 3: "\<forall>b\<in>set bs. findRequestAtLine bs (startLine b) = Some b"
    using findRequestAtLine_sorted[OF srt _ _ _ le] le by blast
  have 4: "(\<forall>b\<in>set bs. \<not> (startLine b \<le> line \<and> line \<le> endLine b)) \<longrightarrow> findRequestAtLine bs line = None"
    unfolding 1 by (auto simp: find_None_iff)
  have 5: "int (length (split_nl content)) \<le> line \<longrightarrow> findRequestAtLine bs line = None"
    unfolding 1 using rng by (fastforce simp: find_None_iff)
  show ?thesis
    using 1 2 3 4 5 by (intro conjI) (simp_all only:)
qed

theorem findRequestAtLine_parsed_witness:
  "parseHttpFile (''### A'' @ [CHR 0x0A] @ ''GET /a'' @ [CHR 0x0A] @ ''K: v'' @ [CHR 0x0A, CHR 0x0A]
                  @ ''### B'' @ [CHR 0x0A] @ ''http://b'')
     = Inr [\<lparr>method = ''GET'', url = ''/a'', headers = [''K'' \<mapsto> ''v''], body = [],
             startLine = 0, endLine = 2, methodLine = 1\<rparr>,
            \<lparr>method = ''GET'', url = ''http://b'', headers = Map.empty, body = [],
             startLine = 4, endLine = 5, methodLine = 5\<rparr>]
   \<and> findRequestAtLine
        [\<lparr>method = ''GET'', url = ''/a'', headers = [''K'' \<mapsto> ''v''], body = [],
             startLine = 0, endLine = 2, methodLine = 1\<rparr>,
         \<lparr>method = ''GET'', url = ''http://b'', headers = Map.empty, body = [],
             startLine = 4, endLine = 5, methodLine = 5\<rparr>] 4
       = Some \<lparr>method = ''GET'', url = ''http://b'', headers = Map.empty, body = [],
             startLine = 4, endLine = 5, methodLine = 5\<rparr>
   \<and> findRequestAtLine
        [\<lparr>method = ''GET'', url = ''/a'', headers = [''K'' \<mapsto> ''v''], body = [],
             startLine = 0, endLine = 2, methodLine = 1\<rparr>,
         \<lparr>method = ''GET'', url = ''http://b'', headers = Map.empty, body = [],
             startLine = 4, endLine = 5, methodLine = 5\<rparr>] 99
       = None"
proof -
  let ?doc = "''### A'' @ [CHR 0x0A] @ ''GET /a'' @ [CHR 0x0A] @ ''K: v'' @ [CHR 0x0A, CHR 0x0A]
                  @ ''### B'' @ [CHR 0x0A] @ ''http://b''"
  let ?b1 = "\<lparr>method = ''GET'', url = ''/a'', headers = [''K'' \<mapsto> ''v''], body = [],
             startLine = 0, endLine = 2, methodLine = 1\<rparr>"
  let ?b2 = "\<lparr>method = ''GET'', url = ''http://b'', headers = Map.empty, body = [],
             startLine = 4, endLine = 5, methodLine = 5\<rparr>"
  have ev: "parseHttpFile ?doc = Inr [?b1, ?b2]" by (simp add: parser_eval)
  have len: "int (length (split_nl ?doc)) \<le> 99" by simp
  have mem: "?b2 \<in> set [?b1, ?b2]" by simp
  note T = findRequestAtLine_parsed[OF ev]
  from T[of 4, THEN conjunct2, THEN conjunct2, THEN conjunct1, rule_format, OF mem]
  have a: "findRequestAtLine [?b1, ?b2] 4 = Some ?b2" by simp
  from T[of 99, THEN conjunct2, THEN conjunct2, THEN conjunct2, THEN conjunct2, rule_format, OF len]
  have b: "findRequestAtLine [?b1, ?b2] 99 = None" .
  show ?thesis
    using ev a b by (intro conjI) (simp_all only:)
qed

section \<open>Splitting and joining lines\<close>

lemma split_nl_nonempty: "split_nl s \<noteq> []"
  by (induction s) (auto split: list.splits)

lemma split_nl_no_newline: "l \<in> set (split_nl s) \<Longrightarrow> CHR 0x0A \<notin> set l"
proof (induction s arbitrary: l)
  case Nil
  then show ?case by simp
next
  case (Cons c cs)
  show ?case
  proof (cases "c = CHR 0x0A")
    case True
    with Cons show ?thesis by auto
  next
    case False
    obtain x xs where sp: "split_nl cs = x # xs"
      using split_nl_nonempty[of cs] by (cases "split_nl cs") auto
    with Cons.prems False have "l = c # x \<or> l \<in> set xs" by auto
    then show ?thesis
      using Cons.IH[of x] Cons.IH[of l] sp False by auto
  qed
qed

lemma split_nl_line: "CHR 0x0A \<notin> set l \<Longrightarrow> split_nl l = [l]"
  by (induction l) auto

lemma split_nl_append: "CHR 0x0A \<notin> set l \<Longrightarrow> split_nl (l @ CHR 0x0A # r) = l # split_nl r"
  by (induction l) auto

lemma split_nl_join_nl:
  "xs \<noteq> [] \<Longrightarrow> \<forall>l\<in>set xs. CHR 0x0A \<notin> set l \<Longrightarrow> split_nl (join_nl xs) = xs"
proof (induction xs rule: join_nl.induct)
  case 1
  then show ?case by simp
next
  case (2 l)
  then show ?case by (simp add: split_nl_line)
next
  case (3 l v va)
  then show ?case by (simp add: split_nl_append)
qed

lemma join_nl_snoc: "xs \<noteq> [] \<Longrightarrow> join_nl (xs @ [l]) = join_nl xs @ CHR 0x0A # l"
  by (induction xs rule: join_nl.induct) auto

lemma trimEnd_append: "trimEnd l \<noteq> [] \<Longrightarrow> trimEnd (p @ l) = p @ trimEnd l"
proof -
  assume "trimEnd l \<noteq> []"
  then obtain c where c: "c \<in> set l" "\<not> is_ws c" by (auto simp: trimEnd_Nil_iff)
  then have "dropWhile is_ws (rev l @ rev p) = dropWhile is_ws (rev l) @ rev p"
    by (intro dropWhile_append1[of c]) auto
  then show ?thesis by (simp add: trimEnd_def)
qed

lemma trimEnd_join_nl_snoc:
  "trimEnd l \<noteq> [] \<Longrightarrow> trimEnd (join_nl (xs @ [l])) = join_nl (xs @ [trimEnd l])"
proof (cases "xs = []")
  case True
  then show ?thesis by simp
next
  case False
  assume ne: "trimEnd l \<noteq> []"
  have "trimEnd (join_nl xs @ CHR 0x0A # l) = (join_nl xs @ [CHR 0x0A]) @ trimEnd l"
    using trimEnd_append[OF ne, of "join_nl xs @ [CHR 0x0A]"] by simp
  with False show ?thesis by (simp add: join_nl_snoc)
qed

lemma trimEnd_subset: "set (trimEnd l) \<subseteq> set l"
  unfolding trimEnd_def using set_dropWhileD[of _ is_ws "rev l"] by auto

lemma trim_trimEnd_nonblank: "trim l \<noteq> [] \<Longrightarrow> trimEnd l \<noteq> [] \<and> trim (trimEnd l) \<noteq> []"
proof -
  assume "trim l \<noteq> []"
  then have ne: "trimEnd l \<noteq> []" by (auto simp: trim_Nil_iff trimEnd_Nil_iff)
  with trimEnd_last[of l] have "\<not> is_ws (last (trimEnd l))" by simp
  moreover have "last (trimEnd l) \<in> set (trimEnd l)" using ne by simp
  ultimately show ?thesis using ne by (auto simp: trim_Nil_iff)
qed

lemma slice_seg: "0 \<le> a \<Longrightarrow> a \<le> en + 1 \<Longrightarrow> en < int (length xs) \<Longrightarrow> slice xs a (en + 1) = seg xs a en"
  by (auto simp: slice_def seg_def Let_def min_def)

lemma seg_snoc: "0 \<le> a \<Longrightarrow> a \<le> en \<Longrightarrow> en < int (length xs) \<Longrightarrow>
  seg xs a en = seg xs a (en - 1) @ [xs ! nat en]"
proof -
  assume a: "0 \<le> a" "a \<le> en" "en < int (length xs)"
  have n: "nat (en + 1 - a) = Suc (nat (en - a))" using a by linarith
  have l: "nat (en - a) < length (drop (nat a) xs)" using a by auto
  have "take (Suc (nat (en - a))) (drop (nat a) xs)
        = take (nat (en - a)) (drop (nat a) xs) @ [drop (nat a) xs ! nat (en - a)]"
    using l by (rule take_Suc_conv_app_nth)
  moreover have "drop (nat a) xs ! nat (en - a) = xs ! nat en"
  proof -
    have e: "nat a + nat (en - a) = nat en" using a by linarith
    have "nat a \<le> length xs" using a by linarith
    then have "drop (nat a) xs ! nat (en - a) = xs ! (nat a + nat (en - a))" by (rule nth_drop)
    then show ?thesis unfolding e .
  qed
  ultimately show ?thesis by (simp add: seg_def n)
qed

section \<open>The header region and the body\<close>

lemma take_seg: "0 \<le> i \<Longrightarrow> i \<le> e' + 1 \<Longrightarrow> e' \<le> en \<Longrightarrow>
  take (nat (e' + 1 - i)) (seg lines i en) = seg lines i e'"
  by (simp add: seg_def min_def)

lemma header_region_cases:
  assumes m: "0 \<le> m" and en: "en < int (length lines)"
  shows "(body_start lines m en = - 1
            \<and> (\<forall>j. m < j \<and> j \<le> en \<longrightarrow> nonblank (lines ! nat j))
            \<and> header_region lines m en = seg lines (m + 1) en)
       \<or> (m + 2 \<le> body_start lines m en \<and> body_start lines m en \<le> en + 1
            \<and> \<not> nonblank (lines ! nat (body_start lines m en - 1))
            \<and> (\<forall>j. m < j \<and> j < body_start lines m en - 1 \<longrightarrow> nonblank (lines ! nat j))
            \<and> header_region lines m en = seg lines (m + 1) (body_start lines m en - 2))"
proof -
  let ?sg = "seg lines (m + 1) en"
  let ?n = "length (header_region lines m en)"
  have lsg: "length ?sg = nat (en - m)" using m en by (simp add: length_seg)
  have nth: "?sg ! k = lines ! nat (m + 1 + int k)" if "k < nat (en - m)" for k
    using seg_nth[of "m + 1" en lines k] m en that by simp
  have nle: "?n \<le> length ?sg" unfolding header_region_def by (rule length_takeWhile_le)
  have pre: "nonblank (lines ! nat j)" if "m < j" "j < m + 1 + int ?n" for j
  proof -
    let ?k = "nat (j - m - 1)"
    have k: "?k < ?n" using that by linarith
    then have "takeWhile nonblank ?sg ! ?k \<in> set (takeWhile nonblank ?sg)"
      unfolding header_region_def by (intro nth_mem)
    then have "nonblank (takeWhile nonblank ?sg ! ?k)" by (rule set_takeWhileD[THEN conjunct2])
    moreover have "takeWhile nonblank ?sg ! ?k = ?sg ! ?k"
      using k unfolding header_region_def by (intro takeWhile_nth)
    moreover have "?sg ! ?k = lines ! nat (m + 1 + int ?k)"
      using k nle lsg by (intro nth) linarith
    moreover have "m + 1 + int ?k = j" using that by linarith
    ultimately show ?thesis by simp
  qed
  have tk: "header_region lines m en = take ?n ?sg"
    unfolding header_region_def by (rule takeWhile_eq_take)
  show ?thesis
  proof (cases "?n < length ?sg")
    case False
    with nle have eq: "?n = length ?sg" by simp
    have 1: "body_start lines m en = - 1" using False by (simp add: body_start_def)
    have 2: "\<forall>j. m < j \<and> j \<le> en \<longrightarrow> nonblank (lines ! nat j)"
      using pre eq lsg by auto
    have 3: "header_region lines m en = ?sg" using tk eq by simp
    from 1 2 3 show ?thesis by blast
  next
    case True
    have bs: "body_start lines m en = m + int ?n + 2" using True by (simp add: body_start_def)
    have 1: "m + 2 \<le> body_start lines m en" "body_start lines m en \<le> en + 1"
      using bs True lsg by auto
    have "\<not> nonblank (?sg ! ?n)"
      using True unfolding header_region_def by (intro nth_length_takeWhile)
    moreover have "?sg ! ?n = lines ! nat (m + 1 + int ?n)" using True lsg by (intro nth) simp
    moreover have "m + 1 + int ?n = body_start lines m en - 1" using bs by simp
    ultimately have 2: "\<not> nonblank (lines ! nat (body_start lines m en - 1))" by simp
    have 3: "\<forall>j. m < j \<and> j < body_start lines m en - 1 \<longrightarrow> nonblank (lines ! nat j)"
      using pre bs by auto
    have "take ?n ?sg = seg lines (m + 1) (m + int ?n)"
      using take_seg[of "m + 1" "m + int ?n" en lines] m True lsg by simp
    then have 4: "header_region lines m en = seg lines (m + 1) (body_start lines m en - 2)"
      using tk bs by simp
    from 1 2 3 4 show ?thesis by blast
  qed
qed

lemma block_body_lines:
  assumes ok: "block_ok lines b" and nl: "\<forall>l\<in>set lines. CHR 0x0A \<notin> set l"
  shows "(body b = [] \<and> \<not> (0 < body_start lines (methodLine b) (endLine b)
                           \<and> body_start lines (methodLine b) (endLine b) \<le> endLine b))
       \<or> (body b \<noteq> [] \<and> methodLine b + 2 \<le> body_start lines (methodLine b) (endLine b)
            \<and> body_start lines (methodLine b) (endLine b) \<le> endLine b
            \<and> split_nl (body b) =
                slice lines (body_start lines (methodLine b) (endLine b)) (endLine b)
                @ [trimEnd (lines ! nat (endLine b))])"
proof -
  let ?m = "methodLine b" and ?en = "endLine b"
  let ?bs = "body_start lines ?m ?en"
  from ok have r: "0 \<le> ?m" "?m \<le> ?en" "?en < int (length lines)"
    and last_nb: "?en = ?m \<or> trim (lines ! nat ?en) \<noteq> []"
    unfolding block_ok_def by auto
  note bd = block_ok_fields(4)[OF ok]
  show ?thesis
  proof (cases "0 < ?bs \<and> ?bs \<le> ?en")
    case False
    with bd show ?thesis by auto
  next
    case True
    with header_region_cases[OF r(1,3)] have lo: "?m + 2 \<le> ?bs" by auto
    with True r last_nb have nb: "trim (lines ! nat ?en) \<noteq> []" by auto
    then have te: "trimEnd (lines ! nat ?en) \<noteq> []" using trim_trimEnd_nonblank by blast
    have sl: "slice lines ?bs (?en + 1) = seg lines ?bs (?en - 1) @ [lines ! nat ?en]"
      using True r slice_seg[of ?bs ?en lines] seg_snoc[of ?bs ?en lines] by simp
    have sl2: "slice lines ?bs ?en = seg lines ?bs (?en - 1)"
      using True r slice_seg[of ?bs "?en - 1" lines] by simp
    have body: "body b = join_nl (seg lines ?bs (?en - 1) @ [trimEnd (lines ! nat ?en)])"
      using bd True sl trimEnd_join_nl_snoc[OF te] by simp
    have "set (seg lines ?bs (?en - 1)) \<subseteq> set lines"
      unfolding seg_def by (meson set_take_subset set_drop_subset subset_trans)
    moreover have "lines ! nat ?en \<in> set lines" using r by simp
    ultimately have nonl: "\<forall>l\<in>set (seg lines ?bs (?en - 1) @ [trimEnd (lines ! nat ?en)]).
        CHR 0x0A \<notin> set l"
      using nl trimEnd_subset[of "lines ! nat ?en"] by auto
    have sp: "split_nl (body b) = seg lines ?bs (?en - 1) @ [trimEnd (lines ! nat ?en)]"
      unfolding body by (rule split_nl_join_nl[OF _ nonl]) simp
    have "body b \<noteq> []"
    proof
      assume "body b = []"
      with sp have "[[]] = seg lines ?bs (?en - 1) @ [trimEnd (lines ! nat ?en)]" by simp
      with te show False by (cases "seg lines ?bs (?en - 1)") auto
    qed
    with lo True sp sl2 show ?thesis by simp
  qed
qed

lemma parsed_lines_no_newline:
  "\<forall>l\<in>set (split_nl content). CHR 0x0A \<notin> set l"
  using split_nl_no_newline by blast

lemma parsed_block_ok:
  "parseHttpFile content = Inr bs \<Longrightarrow> b \<in> set bs \<Longrightarrow> block_ok (split_nl content) b"
  using parseHttpFile_blocks[of content bs] unfolding parse_post_def by blast

section \<open>Trailing blank lines\<close>



section \<open>Lines the header loop passes over\<close>

lemma in_header_region:
  assumes m: "0 \<le> m" and en: "en < int (length lines)"
    and i: "m < i" "i \<le> en"
    and nb: "\<forall>j. m < j \<and> j \<le> i \<longrightarrow> trim (lines ! nat j) \<noteq> []"
  shows "nat (i - m - 1) < length (header_region lines m en)"
    and "header_region lines m en ! nat (i - m - 1) = lines ! nat i"
    and "body_start lines m en = - 1 \<or> i + 2 \<le> body_start lines m en"
proof -
  let ?R = "header_region lines m en" and ?bs = "body_start lines m en"
  let ?k = "nat (i - m - 1)"
  have idx: "m + 1 + int ?k = i" using i by linarith
  from header_region_cases[OF m en]
  consider (none) "?bs = - 1" "?R = seg lines (m + 1) en"
    | (blank) "m + 2 \<le> ?bs" "?bs \<le> en + 1" "\<not> nonblank (lines ! nat (?bs - 1))"
        "?R = seg lines (m + 1) (?bs - 2)"
    by blast
  then have "?k < length ?R \<and> ?R ! ?k = lines ! nat i \<and> (?bs = - 1 \<or> i + 2 \<le> ?bs)"
  proof cases
    case none
    have "length ?R = nat (en - m)" unfolding none(2) using m en by (simp add: length_seg)
    then have k: "?k < length ?R" using i by linarith
    have "?R ! ?k = lines ! nat (m + 1 + int ?k)"
      unfolding none(2) using m en i by (intro seg_nth) auto
    with k idx none(1) show ?thesis by simp
  next
    case blank
    have "\<not> (m < ?bs - 1 \<and> ?bs - 1 \<le> i)"
      using nb blank(3) by (auto simp: nonblank_def)
    with blank(1) have lt: "i + 2 \<le> ?bs" by linarith
    have "length ?R = nat (?bs - 2 - m)"
      unfolding blank(4) using m en blank(2) by (simp add: length_seg)
    then have k: "?k < length ?R" using i lt by linarith
    have "?R ! ?k = lines ! nat (m + 1 + int ?k)"
      unfolding blank(4) using m en i lt blank(2) by (intro seg_nth) auto
    with k idx lt show ?thesis by simp
  qed
  then show "?k < length ?R" and "?R ! ?k = lines ! nat i" and "?bs = - 1 \<or> i + 2 \<le> ?bs"
    by blast+
qed

lemma header_step_inert: "indexOf l CHR '':'' \<le> 0 \<Longrightarrow> header_step h l = h"
  by (simp add: header_step_def Let_def)

lemma foldl_skip_inert:
  assumes "k < length R" and "\<forall>h. f h (R ! k) = h"
  shows "foldl f h0 R = foldl f h0 (take k R @ drop (Suc k) R)"
proof -
  have "R = take k R @ R ! k # drop (Suc k) R" using assms(1) by (rule id_take_nth_drop)
  then have "foldl f h0 R = foldl f h0 (take k R @ R ! k # drop (Suc k) R)" by simp
  also have "\<dots> = foldl f h0 (take k R @ drop (Suc k) R)" using assms(2) by simp
  finally show ?thesis .
qed

text \<open>
  C10. In a returned block, take a line after the method line and up to the last line of the
  block, with no blank line between the method line and it, that has no colon or has its
  first colon at index 0. The header loop passes over it: it goes on at the next line with
  the headers it had. The headers of the block are those of the header region without
  that line, the line is no separator and no method line, and the lines of the body, when
  there is one, all come after it.
\<close>

theorem colonless_header_line_ignored:
  assumes "parseHttpFile content = Inr bs" and "b \<in> set bs"
    and "methodLine b < i" and "i \<le> endLine b"
    and "\<forall>j. methodLine b < j \<and> j \<le> i \<longrightarrow> trim (split_nl content ! nat j) \<noteq> []"
    and "indexOf (split_nl content ! nat i) CHR '':'' \<le> 0"
  shows "(\<forall>h. buildBlock_loop (split_nl content) i (endLine b) h
              = buildBlock_loop (split_nl content) (i + 1) (endLine b) h)
       \<and> nat (i - methodLine b - 1) < length (header_region (split_nl content) (methodLine b) (endLine b))
       \<and> header_region (split_nl content) (methodLine b) (endLine b) ! nat (i - methodLine b - 1)
           = split_nl content ! nat i
       \<and> headers b = foldl header_step Map.empty
            (take (nat (i - methodLine b - 1)) (header_region (split_nl content) (methodLine b) (endLine b))
             @ drop (Suc (nat (i - methodLine b - 1)))
                 (header_region (split_nl content) (methodLine b) (endLine b)))
       \<and> \<not> is_separator (split_nl content ! nat i) \<and> \<not> is_method_line (split_nl content ! nat i)
       \<and> (body b = [] \<or>
            (\<exists>bodyStart. i + 2 \<le> bodyStart \<and> bodyStart \<le> endLine b
               \<and> split_nl (body b) = slice (split_nl content) bodyStart (endLine b)
                                      @ [trimEnd (split_nl content ! nat (endLine b))]))"
proof -
  let ?lines = "split_nl content"
  let ?m = "methodLine b" and ?en = "endLine b"
  let ?R = "header_region ?lines ?m ?en" and ?k = "nat (i - ?m - 1)"
  note ok = parsed_block_ok[OF assms(1,2)]
  from ok have r: "0 \<le> ?m" "?en < int (length ?lines)"
    and inner: "\<forall>j. ?m < j \<and> j \<le> ?en \<longrightarrow>
            \<not> is_separator (?lines ! nat j) \<and> \<not> is_method_line (?lines ! nat j)"
    unfolding block_ok_def by auto
  note reg = in_header_region[OF r assms(3,4,5)]
  have la: "line_at ?lines i = Inr (?lines ! nat i)"
    using r assms(3,4) by (simp add: line_at_def)
  have nbi: "trim (?lines ! nat i) \<noteq> []" using assms(3,5) by simp
  have 1: "\<forall>h. buildBlock_loop ?lines i ?en h = buildBlock_loop ?lines (i + 1) ?en h"
  proof
    fix h
    show "buildBlock_loop ?lines i ?en h = buildBlock_loop ?lines (i + 1) ?en h"
      using assms(4,6) la nbi by (subst buildBlock_loop.simps) (simp add: Let_def)
  qed
  have inert: "\<forall>h. header_step h (?R ! ?k) = h"
    unfolding reg(2) using assms(6) by (simp add: header_step_inert)
  have 4: "headers b = foldl header_step Map.empty (take ?k ?R @ drop (Suc ?k) ?R)"
    unfolding block_ok_fields(3)[OF ok]
    using reg(1) inert by (rule foldl_skip_inert[where f = header_step])
  have 5: "\<not> is_separator (?lines ! nat i) \<and> \<not> is_method_line (?lines ! nat i)"
    using inner assms(3,4) by simp
  have 6: "body b = [] \<or>
            (\<exists>bodyStart. i + 2 \<le> bodyStart \<and> bodyStart \<le> ?en
               \<and> split_nl (body b) = slice ?lines bodyStart ?en @ [trimEnd (?lines ! nat ?en)])"
    using block_body_lines[OF ok parsed_lines_no_newline] reg(3) r(1) by auto
  show ?thesis
    by (rule conjI[OF 1 conjI[OF reg(1) conjI[OF reg(2) conjI[OF 4 conjI[OF 5[THEN conjunct1]
          conjI[OF 5[THEN conjunct2] 6]]]]]])
qed

theorem colonless_header_line_ignored_witness:
  "parseHttpFile (''GET /a'' @ [CHR 0x0A] @ ''nocolon'' @ [CHR 0x0A] @ '': zero'' @ [CHR 0x0A]
                  @ ''K: v'' @ [CHR 0x0A, CHR 0x0A] @ ''body'')
     = Inr [\<lparr>method = ''GET'', url = ''/a'', headers = [''K'' \<mapsto> ''v''], body = ''body'',
             startLine = 0, endLine = 5, methodLine = 0\<rparr>]
   \<and> buildBlock_loop [''GET /a'', ''nocolon'', '': zero'', ''K: v'', [], ''body''] 2 5 Map.empty
       = buildBlock_loop [''GET /a'', ''nocolon'', '': zero'', ''K: v'', [], ''body''] 3 5 Map.empty
   \<and> header_region [''GET /a'', ''nocolon'', '': zero'', ''K: v'', [], ''body''] 0 5 ! 1 = '': zero''
   \<and> \<not> is_method_line '': zero''"
proof -
  let ?doc = "''GET /a'' @ [CHR 0x0A] @ ''nocolon'' @ [CHR 0x0A] @ '': zero'' @ [CHR 0x0A]
                  @ ''K: v'' @ [CHR 0x0A, CHR 0x0A] @ ''body''"
  let ?lines = "[''GET /a'', ''nocolon'', '': zero'', ''K: v'', [], ''body'']"
  let ?b = "\<lparr>method = ''GET'', url = ''/a'', headers = [''K'' \<mapsto> ''v''], body = ''body'',
             startLine = 0, endLine = 5, methodLine = 0\<rparr>"
  have ev: "parseHttpFile ?doc = Inr [?b]" by (simp add: parser_eval)
  have sp: "split_nl ?doc = ?lines" by simp
  have mem: "?b \<in> set [?b]" by simp
  have lo: "methodLine ?b < 2" and hi: "2 \<le> endLine ?b" by simp_all
  have nb: "\<forall>j. methodLine ?b < j \<and> j \<le> 2 \<longrightarrow> trim (split_nl ?doc ! nat j) \<noteq> []"
  proof (intro allI impI)
    fix j :: int assume "methodLine ?b < j \<and> j \<le> 2"
    then have "j = 1 \<or> j = 2" by auto
    then show "trim (split_nl ?doc ! nat j) \<noteq> []"
      unfolding sp by (elim disjE; simp add: trim_def trimStart_def trimEnd_def is_ws_def)
  qed
  have colon: "indexOf (split_nl ?doc ! nat 2) CHR '':'' \<le> 0"
    unfolding sp by simp
  note T = colonless_header_line_ignored[OF ev mem lo hi nb colon, unfolded sp]
  from T[THEN conjunct1, rule_format, of Map.empty]
  have 1: "buildBlock_loop ?lines 2 5 Map.empty = buildBlock_loop ?lines 3 5 Map.empty" by simp
  from T[THEN conjunct2, THEN conjunct2, THEN conjunct1]
  have 2: "header_region ?lines 0 5 ! 1 = '': zero''" by simp
  from T[THEN conjunct2, THEN conjunct2, THEN conjunct2, THEN conjunct2, THEN conjunct2, THEN conjunct1]
  have 3: "\<not> is_method_line '': zero''" by simp
  show ?thesis by (rule conjI[OF ev conjI[OF 1 conjI[OF 2 3]]])
qed

section \<open>Header lines\<close>

lemma header_step_apply:
  "header_step h l k =
     (if 0 < indexOf l CHR '':'' \<and> header_key l = k \<and> k \<noteq> ''__proto__''
      then Some (header_value l) else h k)"
  by (auto simp: header_step_def header_key_def header_value_def set_prop_def Let_def)

lemma foldl_header_step_apply:
  "foldl header_step h ls k =
     (case filter (\<lambda>l. 0 < indexOf l CHR '':'' \<and> header_key l = k) ls of
        [] \<Rightarrow> h k
      | f # fs \<Rightarrow> if k = ''__proto__'' then h k else Some (header_value (last (f # fs))))"
proof (induction ls arbitrary: h)
  case Nil
  then show ?case by simp
next
  case (Cons l ls)
  show ?case
    unfolding foldl_Cons Cons.IH
    by (auto simp: header_step_apply split: list.splits)
qed

text \<open>
  What the headers of a returned block are: for a key other than \<open>__proto__\<close>, the trimmed
  value of the last line of the header region that has the key, and nothing when no line has
  it; for \<open>__proto__\<close>, nothing.
\<close>

lemma parsed_headers_lookup:
  assumes "parseHttpFile content = Inr bs" and "b \<in> set bs"
  shows "headers b k =
     (case filter (\<lambda>l. 0 < indexOf l CHR '':'' \<and> header_key l = k)
             (header_region (split_nl content) (methodLine b) (endLine b)) of
        [] \<Rightarrow> None
      | f # fs \<Rightarrow> if k = ''__proto__'' then None else Some (header_value (last (f # fs))))"
  unfolding block_ok_fields(3)[OF parsed_block_ok[OF assms]] foldl_header_step_apply by simp

text \<open>
  C7. The document \<open>GET /a\<close>, \<open>__proto__: x\<close>, \<open>A: 1\<close>, \<open>A: 2\<close> has three lines of the shape
  \<open>key: value\<close> in its header region. The later \<open>A\<close> overwrites the earlier one, but the
  line with the key \<open>__proto__\<close> leaves no entry in the headers.
\<close>

theorem proto_header_line_not_captured:
  "parseHttpFile (''GET /a'' @ [CHR 0x0A] @ ''__proto__: x'' @ [CHR 0x0A] @ ''A: 1'' @ [CHR 0x0A]
                  @ ''A: 2'')
     = Inr [\<lparr>method = ''GET'', url = ''/a'', headers = [''A'' \<mapsto> ''2''], body = [],
             startLine = 0, endLine = 3, methodLine = 0\<rparr>]
   \<and> [''A'' \<mapsto> ''2''] ''__proto__'' = None
   \<and> 0 < indexOf ''__proto__: x'' CHR '':''
   \<and> header_key ''__proto__: x'' = ''__proto__''"
  by (simp add: parser_eval header_key_def)

section \<open>Comment lines\<close>

lemma looksLike_loop_first_char:
  "looksLikeMethodLine_loop ms t \<Longrightarrow> [] \<notin> set ms \<Longrightarrow>
   t \<noteq> [] \<and> (hd t \<in> hd ` set ms \<or> hd t = CHR ''h'')"
proof (induction ms)
  case Nil
  then show ?case by (auto simp: bare_url_def startsWith_def prefix_def)
next
  case (Cons m ms)
  show ?case
  proof (cases "startsWith t (m @ '' '')")
    case True
    with Cons.prems(2) have "t \<noteq> [] \<and> hd t = hd m"
      by (cases m) (auto simp: startsWith_def prefix_def)
    then show ?thesis by simp
  next
    case False
    with Cons show ?thesis by auto
  qed
qed

lemma comment_line_not_boundary:
  assumes "is_comment (trim l)"
  shows "\<not> is_separator l" and "\<not> is_method_line l"
proof -
  from assms show "\<not> is_separator l" by (simp add: is_comment_def is_separator_def)
  from assms have c: "trim l \<noteq> []" "hd (trim l) = CHR ''#'' \<or> hd (trim l) = CHR ''/''"
    by (auto simp: is_comment_def startsWith_def prefix_def)
  have "\<not> looksLikeMethodLine (trim l)"
  proof
    assume "looksLikeMethodLine (trim l)"
    then have "hd (trim l) \<in> hd ` set HTTP_METHODS \<or> hd (trim l) = CHR ''h''"
      unfolding looksLikeMethodLine_def
      using looksLike_loop_first_char[of HTTP_METHODS "trim l"] by (simp add: HTTP_METHODS_def)
    with c(2) show False by (auto simp: HTTP_METHODS_def)
  qed
  then show "\<not> is_method_line l" by (simp add: is_method_line_def)
qed

text \<open>
  C1. In the document \<open>GET /a\<close>, \<open># note: x\<close> the second line is a comment line in the
  header region of the block, and it is captured as the header \<open># note\<close> with the value
  \<open>x\<close>.
\<close>

theorem comment_line_captured_as_header:
  "parseHttpFile (''GET /a'' @ [CHR 0x0A] @ ''# note: x'')
     = Inr [\<lparr>method = ''GET'', url = ''/a'', headers = [''# note'' \<mapsto> ''x''], body = [],
             startLine = 0, endLine = 1, methodLine = 0\<rparr>]
   \<and> is_comment (trim ''# note: x'')
   \<and> [''# note'' \<mapsto> ''x''] ''# note'' = Some ''x''"
  by (simp add: parser_eval is_comment_def)

section \<open>The executor\<close>

lemma Milliseconds_nonneg: "0 \<le> d \<Longrightarrow> 0 \<le> Milliseconds d"
  by (simp add: Milliseconds_def signed_divide_int_def sgn_if pos_imp_zdiv_nonneg_iff)

text \<open>\<open>Execute\<close> when \<open>http.NewRequest\<close> fails, and when it returns a request.\<close>

lemma Execute_invalid:
  assumes "invalid m u = Some e"
  shows "Execute invalid canon a m u b w =
           (\<lparr> Status = 0, Headers = Map.empty, Body = [], Duration = 0, Error = e \<rparr>, w)"
  using assms by (simp add: Execute_def http_NewRequest_def Let_def)

lemma Execute_sent:
  assumes "invalid m u = None"
  shows "\<exists>req. wire (snd (Execute invalid canon a m u b w)) = wire w @ [req]
           \<and> clock (snd (Execute invalid canon a m u b w)) =
               clock w + int (do_nanos a w req)
                 + (case roundTrip a w req of Inl _ \<Rightarrow> 0 | Inr resp \<Rightarrow> int (read_nanos (resp_Body resp)))
           \<and> req_Header req = (if b \<noteq> [] then [canon ''Content-Type'' \<mapsto> [''application/json'']]
                                else Map.empty)
           \<and> req_Body req = (if b \<noteq> [] then Some b else None)
           \<and> fst (Execute invalid canon a m u b w) =
               (case roundTrip a w req of
                  Inl err \<Rightarrow> \<lparr> Status = 0, Headers = Map.empty, Body = [],
                                Duration = Milliseconds (min (int (do_nanos a w req)) 9223372036854775807),
                                Error = err \<rparr>
                | Inr resp \<Rightarrow>
                    \<lparr> Status = StatusCode resp,
                      Headers = (\<lambda>key. case Header resp key of
                                         None \<Rightarrow> None
                                       | Some _ \<Rightarrow> Some (Header_Get canon (Header resp) key)),
                      Body = bytes_read (resp_Body resp),
                      Duration = Milliseconds (min (int (do_nanos a w req + read_nanos (resp_Body resp)))
                                                   9223372036854775807),
                      Error = [] \<rparr>)"
proof -
  let ?req0 = "\<lparr> req_Method = (if m = [] then ''GET'' else m), req_URL = u,
                  req_Header = Map.empty, req_Body = (if b \<noteq> [] then Some b else None) \<rparr>"
  have nr: "http_NewRequest invalid m u (if b \<noteq> [] then Some b else None) = Inr ?req0"
    using assms by (simp add: http_NewRequest_def)
  show ?thesis
  proof (cases "b = []")
    case True
    let ?req = "\<lparr> req_Method = (if m = [] then ''GET'' else m), req_URL = u,
                  req_Header = Map.empty, req_Body = None \<rparr>"
    show ?thesis
      apply (rule exI[of _ ?req])
      using True nr
      by (cases "roundTrip a w ?req")
         (simp_all add: Execute_def Let_def client_Do_def io_ReadAll_def time_Since_def add.assoc)
  next
    case False
    let ?req = "\<lparr> req_Method = (if m = [] then ''GET'' else m), req_URL = u,
                  req_Header = [canon ''Content-Type'' \<mapsto> [''application/json'']],
                  req_Body = Some b \<rparr>"
    show ?thesis
      apply (rule exI[of _ ?req])
      using False nr
      by (cases "roundTrip a w ?req")
         (simp_all add: Execute_def Let_def client_Do_def io_ReadAll_def Header_Set_def
            time_Since_def add.assoc)
  qed
qed

lemma time_Since_later:
  "clock w' = clock w + int n \<Longrightarrow> time_Since w' (clock w) = min (int n) 9223372036854775807"
  by (simp add: time_Since_def Let_def)

lemma Execute_wire:
  "\<exists>sent. wire (snd (Execute invalid canon a m u b w)) = wire w @ sent \<and> length sent \<le> 1"
proof (cases "invalid m u")
  case None
  from Execute_sent[of invalid m u canon a b w, OF None] show ?thesis by force
next
  case (Some e)
  then show ?thesis by (simp add: Execute_invalid)
qed

text \<open>
  C4. Every request an execution hands to the transport (there is at most one, and exactly
  one when the request can be built) carries, for a body that is not empty, the header
  \<open>Content-Type\<close> with the one value \<open>application/json\<close> and the body as its payload,
  whatever the body is; for the empty body it has no payload and no header at all. The
  header's name is the one \<open>Header.Set\<close> is called with, since \<open>Content-Type\<close> is its own
  canonical form.
\<close>

theorem execute_content_type:
  assumes "Execute invalid canon a m u b w = (r, w')"
    and "canon ''Content-Type'' = ''Content-Type''"
  shows "\<exists>sent. wire w' = wire w @ sent \<and> length sent \<le> 1
           \<and> (invalid m u = None \<longrightarrow> length sent = 1)
           \<and> (\<forall>req\<in>set sent.
                 (b \<noteq> [] \<longrightarrow> req_Header req ''Content-Type'' = Some [''application/json'']
                             \<and> req_Body req = Some b)
               \<and> (b = [] \<longrightarrow> req_Header req = Map.empty \<and> req_Body req = None))"
proof (cases "invalid m u")
  case (Some e)
  with assms(1) have "w' = w" by (simp add: Execute_invalid)
  with Some show ?thesis by simp
next
  case None
  from Execute_sent[of invalid m u canon a b w, OF None] assms(1) obtain req where
    req: "wire w' = wire w @ [req]"
      "req_Header req = (if b \<noteq> [] then [canon ''Content-Type'' \<mapsto> [''application/json'']]
                         else Map.empty)"
      "req_Body req = (if b \<noteq> [] then Some b else None)"
    by auto
  show ?thesis
    apply (rule exI[of _ "[req]"])
    using req assms(2) by simp
qed

theorem execute_content_type_witness:
  "map (\<lambda>q. (req_Header q ''Content-Type'', req_Body q))
     (wire (snd (Execute (\<lambda>m u. None) (\<lambda>k. k)
                   \<lparr> roundTrip = (\<lambda>w q. Inl ''connection refused''), do_nanos = (\<lambda>w q. 2500000) \<rparr>
                   ''POST'' ''http://h/'' ''not json'' \<lparr> clock = 7, wire = [] \<rparr>)))
   = [(Some [''application/json''], Some ''not json'')]
   \<and> map (\<lambda>q. (req_Header q ''Content-Type'', req_Body q))
     (wire (snd (Execute (\<lambda>m u. None) (\<lambda>k. k)
                   \<lparr> roundTrip = (\<lambda>w q. Inl ''connection refused''), do_nanos = (\<lambda>w q. 2500000) \<rparr>
                   ''GET'' ''http://h/'' [] \<lparr> clock = 7, wire = [] \<rparr>)))
   = [(None, None)]"
proof -
  let ?a = "\<lparr> roundTrip = (\<lambda>w q. Inl ''connection refused''), do_nanos = (\<lambda>w q. 2500000) \<rparr>"
  let ?w = "\<lparr> clock = 7, wire = [] \<rparr>"
  let ?E1 = "Execute (\<lambda>m u. None) (\<lambda>k. k) ?a ''POST'' ''http://h/'' ''not json'' ?w"
  let ?E2 = "Execute (\<lambda>m u. None) (\<lambda>k. k) ?a ''GET'' ''http://h/'' [] ?w"
  have c: "(\<lambda>k. k) ''Content-Type'' = ''Content-Type''" by simp
  have e1: "?E1 = (fst ?E1, snd ?E1)" and e2: "?E2 = (fst ?E2, snd ?E2)" by simp_all
  from execute_content_type[OF e1 c] obtain s1 where
    s1: "wire (snd ?E1) = wire ?w @ s1" "length s1 = 1"
      "\<forall>req\<in>set s1. req_Header req ''Content-Type'' = Some [''application/json'']
                     \<and> req_Body req = Some ''not json''"
    by auto
  from s1(2) obtain q1 where q1: "s1 = [q1]" by (cases s1) auto
  from execute_content_type[OF e2 c] obtain s2 where
    s2: "wire (snd ?E2) = wire ?w @ s2" "length s2 = 1"
      "\<forall>req\<in>set s2. req_Header req = Map.empty \<and> req_Body req = None"
    by auto
  from s2(2) obtain q2 where q2: "s2 = [q2]" by (cases s2) auto
  have 1: "map (\<lambda>q. (req_Header q ''Content-Type'', req_Body q)) (wire (snd ?E1))
           = [(Some [''application/json''], Some ''not json'')]"
    using s1 q1 by simp
  have 2: "map (\<lambda>q. (req_Header q ''Content-Type'', req_Body q)) (wire (snd ?E2)) = [(None, None)]"
    using s2 q2 by simp
  show ?thesis by (rule conjI[OF 1 2])
qed

text \<open>
  C5. Let \<open>e\<close> be the message of an error, which is not empty. When \<open>http.NewRequest\<close>
  fails with it, the result has that error, duration 0, and the world is as it was: the
  transport was not called. When the request is built, it is handed to the transport once;
  and when the transport fails with \<open>e\<close>, the result has that error and, as duration, the
  milliseconds from the start of the execution to the return of the transport, which are not
  negative. In every case the transport is called at most once.
\<close>

theorem execute_failure:
  assumes "Execute invalid canon a m u b w = (r, w')" and "e \<noteq> []"
  shows "(invalid m u = Some e \<longrightarrow> Error r = e \<and> Error r \<noteq> [] \<and> Duration r = 0 \<and> w' = w)
       \<and> (invalid m u = None \<longrightarrow>
            (\<exists>req. wire w' = wire w @ [req]
               \<and> (roundTrip a w req = Inl e \<longrightarrow>
                    Error r = e \<and> Error r \<noteq> []
                    \<and> clock w' = clock w + int (do_nanos a w req)
                    \<and> Duration r = Milliseconds (time_Since w' (clock w))
                    \<and> 0 \<le> Duration r)))
       \<and> (\<exists>sent. wire w' = wire w @ sent \<and> length sent \<le> 1)"
proof -
  have 1: "Error r = e \<and> Error r \<noteq> [] \<and> Duration r = 0 \<and> w' = w" if "invalid m u = Some e"
    using Execute_invalid[of invalid m u e canon a b w, OF that] assms by auto
  have 2: "\<exists>req. wire w' = wire w @ [req]
               \<and> (roundTrip a w req = Inl e \<longrightarrow>
                    Error r = e \<and> Error r \<noteq> []
                    \<and> clock w' = clock w + int (do_nanos a w req)
                    \<and> Duration r = Milliseconds (time_Since w' (clock w))
                    \<and> 0 \<le> Duration r)" if "invalid m u = None"
  proof -
    from Execute_sent[of invalid m u canon a b w, OF that] assms(1) obtain req where
      req: "wire w' = wire w @ [req]"
        "clock w' = clock w + int (do_nanos a w req)
           + (case roundTrip a w req of Inl _ \<Rightarrow> 0 | Inr resp \<Rightarrow> int (read_nanos (resp_Body resp)))"
        "r = (case roundTrip a w req of
                  Inl err \<Rightarrow> \<lparr> Status = 0, Headers = Map.empty, Body = [],
                                Duration = Milliseconds (min (int (do_nanos a w req)) 9223372036854775807),
                                Error = err \<rparr>
                | Inr resp \<Rightarrow>
                    \<lparr> Status = StatusCode resp,
                      Headers = (\<lambda>key. case Header resp key of
                                         None \<Rightarrow> None
                                       | Some _ \<Rightarrow> Some (Header_Get canon (Header resp) key)),
                      Body = bytes_read (resp_Body resp),
                      Duration = Milliseconds (min (int (do_nanos a w req + read_nanos (resp_Body resp)))
                                                   9223372036854775807),
                      Error = [] \<rparr>)"
      by auto
    have "Error r = e \<and> Error r \<noteq> []
          \<and> clock w' = clock w + int (do_nanos a w req)
          \<and> Duration r = Milliseconds (time_Since w' (clock w))
          \<and> 0 \<le> Duration r" if f: "roundTrip a w req = Inl e"
    proof -
      from req(2) f have c: "clock w' = clock w + int (do_nanos a w req)" by simp
      from req(3) f have r: "Error r = e"
        "Duration r = Milliseconds (min (int (do_nanos a w req)) 9223372036854775807)" by simp_all
      have "0 \<le> Duration r" unfolding r(2) by (rule Milliseconds_nonneg) simp
      with c r assms(2) time_Since_later[OF c] show ?thesis by simp
    qed
    with req(1) show ?thesis by blast
  qed
  have 3: "\<exists>sent. wire w' = wire w @ sent \<and> length sent \<le> 1"
    using Execute_wire[of invalid canon a m u b w] assms(1) by simp
  from 1 2 3 show ?thesis by blast
qed

theorem execute_failure_witness:
  "Error (fst (Execute (\<lambda>m u. if m = ''BAD METHOD'' then Some ''net/http: invalid method'' else None)
                 (\<lambda>k. k)
                 \<lparr> roundTrip = (\<lambda>w q. Inl ''connection refused''), do_nanos = (\<lambda>w q. 2500000) \<rparr>
                 ''BAD METHOD'' ''http://h/'' [] \<lparr> clock = 7, wire = [] \<rparr>))
     = ''net/http: invalid method''
   \<and> Duration (fst (Execute (\<lambda>m u. if m = ''BAD METHOD'' then Some ''net/http: invalid method'' else None)
                 (\<lambda>k. k)
                 \<lparr> roundTrip = (\<lambda>w q. Inl ''connection refused''), do_nanos = (\<lambda>w q. 2500000) \<rparr>
                 ''BAD METHOD'' ''http://h/'' [] \<lparr> clock = 7, wire = [] \<rparr>)) = 0
   \<and> snd (Execute (\<lambda>m u. if m = ''BAD METHOD'' then Some ''net/http: invalid method'' else None)
                 (\<lambda>k. k)
                 \<lparr> roundTrip = (\<lambda>w q. Inl ''connection refused''), do_nanos = (\<lambda>w q. 2500000) \<rparr>
                 ''BAD METHOD'' ''http://h/'' [] \<lparr> clock = 7, wire = [] \<rparr>)
     = \<lparr> clock = 7, wire = [] \<rparr>
   \<and> Error (fst (Execute (\<lambda>m u. if m = ''BAD METHOD'' then Some ''net/http: invalid method'' else None)
                 (\<lambda>k. k)
                 \<lparr> roundTrip = (\<lambda>w q. Inl ''connection refused''), do_nanos = (\<lambda>w q. 2500000) \<rparr>
                 ''GET'' ''http://h/'' [] \<lparr> clock = 7, wire = [] \<rparr>))
     = ''connection refused''
   \<and> Duration (fst (Execute (\<lambda>m u. if m = ''BAD METHOD'' then Some ''net/http: invalid method'' else None)
                 (\<lambda>k. k)
                 \<lparr> roundTrip = (\<lambda>w q. Inl ''connection refused''), do_nanos = (\<lambda>w q. 2500000) \<rparr>
                 ''GET'' ''http://h/'' [] \<lparr> clock = 7, wire = [] \<rparr>)) = 2
   \<and> length (wire (snd (Execute (\<lambda>m u. if m = ''BAD METHOD'' then Some ''net/http: invalid method'' else None)
                 (\<lambda>k. k)
                 \<lparr> roundTrip = (\<lambda>w q. Inl ''connection refused''), do_nanos = (\<lambda>w q. 2500000) \<rparr>
                 ''GET'' ''http://h/'' [] \<lparr> clock = 7, wire = [] \<rparr>))) = 1"
proof -
  let ?inv = "\<lambda>m u. if m = ''BAD METHOD'' then Some ''net/http: invalid method'' else None"
  let ?a = "\<lparr> roundTrip = (\<lambda>w q. Inl ''connection refused''), do_nanos = (\<lambda>w q. 2500000) \<rparr>"
  let ?w = "\<lparr> clock = 7, wire = [] \<rparr>"
  let ?E1 = "Execute ?inv (\<lambda>k. k) ?a ''BAD METHOD'' ''http://h/'' [] ?w"
  let ?E2 = "Execute ?inv (\<lambda>k. k) ?a ''GET'' ''http://h/'' [] ?w"
  have e1: "?E1 = (fst ?E1, snd ?E1)" and e2: "?E2 = (fst ?E2, snd ?E2)" by simp_all
  have m1: "''net/http: invalid method'' \<noteq> []" and m2: "''connection refused'' \<noteq> []"
    by simp_all
  have i1: "?inv ''BAD METHOD'' ''http://h/'' = Some ''net/http: invalid method''" by simp
  have i2: "?inv ''GET'' ''http://h/'' = None" by simp
  from execute_failure[OF e1 m1, THEN conjunct1, rule_format, OF i1]
  have 1: "Error (fst ?E1) = ''net/http: invalid method''" and 2: "Duration (fst ?E1) = 0"
    and 3: "snd ?E1 = ?w" by blast+
  from execute_failure[OF e2 m2, THEN conjunct2, THEN conjunct1, rule_format, OF i2]
  obtain req where req: "wire (snd ?E2) = wire ?w @ [req]"
    and imp: "roundTrip ?a ?w req = Inl ''connection refused'' \<longrightarrow>
                Error (fst ?E2) = ''connection refused''
              \<and> Error (fst ?E2) \<noteq> []
              \<and> clock (snd ?E2) = clock ?w + int (do_nanos ?a ?w req)
              \<and> Duration (fst ?E2) = Milliseconds (time_Since (snd ?E2) (clock ?w))
              \<and> 0 \<le> Duration (fst ?E2)"
    by blast
  have rt: "roundTrip ?a ?w req = Inl ''connection refused''" by simp
  from imp rt have 4: "Error (fst ?E2) = ''connection refused''"
    and c: "clock (snd ?E2) = clock ?w + int (do_nanos ?a ?w req)"
    and d: "Duration (fst ?E2) = Milliseconds (time_Since (snd ?E2) (clock ?w))" by blast+
  have 5: "Duration (fst ?E2) = 2"
    unfolding d time_Since_def Let_def c
    by (simp add: Milliseconds_def signed_divide_int_def)
  have 6: "length (wire (snd ?E2)) = 1" unfolding req by simp
  show ?thesis by (rule conjI[OF 1 conjI[OF 2 conjI[OF 3 conjI[OF 4 conjI[OF 5 6]]]]])
qed

text \<open>
  C6. When the request is built, it is handed to the transport once; and when the transport
  returns a response, whatever its status code, the result has no error, the status code
  of the response, one header for each name of the response's header and no other, its
  value what \<open>Header.Get\<close> returns for the name (for a name in canonical form, the first of
  its values), as body the whole payload of the response when reading it ends without an
  error, and, as duration, the milliseconds from the start of the execution to the end of
  that read.
\<close>

theorem execute_response:
  assumes "Execute invalid canon a m u b w = (r, w')" and "invalid m u = None"
  shows "\<exists>req. wire w' = wire w @ [req]
           \<and> (\<forall>resp. roundTrip a w req = Inr resp \<longrightarrow>
                  Error r = [] \<and> Status r = StatusCode resp
                \<and> dom (Headers r) = dom (Header resp)
                \<and> (\<forall>k\<in>dom (Header resp). Headers r k = Some (Header_Get canon (Header resp) k))
                \<and> (\<forall>k v vs. Header resp k = Some (v # vs) \<and> canon k = k \<longrightarrow> Headers r k = Some v)
                \<and> (read_fails (resp_Body resp) = None \<longrightarrow> Body r = payload (resp_Body resp))
                \<and> clock w' = clock w + int (do_nanos a w req) + int (read_nanos (resp_Body resp))
                \<and> Duration r = Milliseconds (time_Since w' (clock w))
                \<and> 0 \<le> Duration r)"
proof -
  from Execute_sent[of invalid m u canon a b w, OF assms(2)] assms(1) obtain req where
    req: "wire w' = wire w @ [req]"
      "clock w' = clock w + int (do_nanos a w req)
         + (case roundTrip a w req of Inl _ \<Rightarrow> 0 | Inr resp \<Rightarrow> int (read_nanos (resp_Body resp)))"
      "r = (case roundTrip a w req of
                Inl err \<Rightarrow> \<lparr> Status = 0, Headers = Map.empty, Body = [],
                              Duration = Milliseconds (min (int (do_nanos a w req)) 9223372036854775807),
                              Error = err \<rparr>
              | Inr resp \<Rightarrow>
                  \<lparr> Status = StatusCode resp,
                    Headers = (\<lambda>key. case Header resp key of
                                       None \<Rightarrow> None
                                     | Some _ \<Rightarrow> Some (Header_Get canon (Header resp) key)),
                    Body = bytes_read (resp_Body resp),
                    Duration = Milliseconds (min (int (do_nanos a w req + read_nanos (resp_Body resp)))
                                                 9223372036854775807),
                    Error = [] \<rparr>)"
    by auto
  have "Error r = [] \<and> Status r = StatusCode resp
        \<and> dom (Headers r) = dom (Header resp)
        \<and> (\<forall>k\<in>dom (Header resp). Headers r k = Some (Header_Get canon (Header resp) k))
        \<and> (\<forall>k v vs. Header resp k = Some (v # vs) \<and> canon k = k \<longrightarrow> Headers r k = Some v)
        \<and> (read_fails (resp_Body resp) = None \<longrightarrow> Body r = payload (resp_Body resp))
        \<and> clock w' = clock w + int (do_nanos a w req) + int (read_nanos (resp_Body resp))
        \<and> Duration r = Milliseconds (time_Since w' (clock w))
        \<and> 0 \<le> Duration r" if ok: "roundTrip a w req = Inr resp" for resp
  proof -
    let ?n = "do_nanos a w req + read_nanos (resp_Body resp)"
    from req(2) ok have c: "clock w' = clock w + int ?n" by simp
    from req(3) ok have r: "Error r = []" "Status r = StatusCode resp"
      "Headers r = (\<lambda>key. case Header resp key of
                             None \<Rightarrow> None
                           | Some _ \<Rightarrow> Some (Header_Get canon (Header resp) key))"
      "Body r = bytes_read (resp_Body resp)"
      "Duration r = Milliseconds (min (int ?n) 9223372036854775807)" by simp_all
    have d: "dom (Headers r) = dom (Header resp)"
      unfolding r(3) by (auto simp: dom_def split: option.splits)
    have g: "\<forall>k\<in>dom (Header resp). Headers r k = Some (Header_Get canon (Header resp) k)"
      unfolding r(3) by (auto split: option.splits)
    have f: "\<forall>k v vs. Header resp k = Some (v # vs) \<and> canon k = k \<longrightarrow> Headers r k = Some v"
      unfolding r(3) by (auto simp: Header_Get_def)
    have bd: "read_fails (resp_Body resp) = None \<longrightarrow> Body r = payload (resp_Body resp)"
      unfolding r(4) by (simp add: bytes_read_def)
    have nn: "0 \<le> Duration r" unfolding r(5) by (rule Milliseconds_nonneg) simp
    have du: "Duration r = Milliseconds (time_Since w' (clock w))"
      unfolding r(5) time_Since_later[OF c] ..
    from r(1,2) bd d g f c nn du show ?thesis by simp
  qed
  with req(1) show ?thesis by blast
qed

theorem execute_response_witness:
  "Status (fst (Execute (\<lambda>m u. None) (\<lambda>k. k)
       \<lparr> roundTrip = (\<lambda>w q. Inr \<lparr> StatusCode = 404,
                                    Header = [''Set-Cookie'' \<mapsto> [''a'', ''b'']],
                                    resp_Body = \<lparr> payload = ''not found'', read_fails = None,
                                                  read_nanos = 1500000 \<rparr> \<rparr>),
         do_nanos = (\<lambda>w q. 2000000) \<rparr>
       ''GET'' ''http://h/'' [] \<lparr> clock = 7, wire = [] \<rparr>)) = 404
   \<and> Error (fst (Execute (\<lambda>m u. None) (\<lambda>k. k)
       \<lparr> roundTrip = (\<lambda>w q. Inr \<lparr> StatusCode = 404,
                                    Header = [''Set-Cookie'' \<mapsto> [''a'', ''b'']],
                                    resp_Body = \<lparr> payload = ''not found'', read_fails = None,
                                                  read_nanos = 1500000 \<rparr> \<rparr>),
         do_nanos = (\<lambda>w q. 2000000) \<rparr>
       ''GET'' ''http://h/'' [] \<lparr> clock = 7, wire = [] \<rparr>)) = []
   \<and> Headers (fst (Execute (\<lambda>m u. None) (\<lambda>k. k)
       \<lparr> roundTrip = (\<lambda>w q. Inr \<lparr> StatusCode = 404,
                                    Header = [''Set-Cookie'' \<mapsto> [''a'', ''b'']],
                                    resp_Body = \<lparr> payload = ''not found'', read_fails = None,
                                                  read_nanos = 1500000 \<rparr> \<rparr>),
         do_nanos = (\<lambda>w q. 2000000) \<rparr>
       ''GET'' ''http://h/'' [] \<lparr> clock = 7, wire = [] \<rparr>)) ''Set-Cookie'' = Some ''a''
   \<and> Body (fst (Execute (\<lambda>m u. None) (\<lambda>k. k)
       \<lparr> roundTrip = (\<lambda>w q. Inr \<lparr> StatusCode = 404,
                                    Header = [''Set-Cookie'' \<mapsto> [''a'', ''b'']],
                                    resp_Body = \<lparr> payload = ''not found'', read_fails = None,
                                                  read_nanos = 1500000 \<rparr> \<rparr>),
         do_nanos = (\<lambda>w q. 2000000) \<rparr>
       ''GET'' ''http://h/'' [] \<lparr> clock = 7, wire = [] \<rparr>)) = ''not found''
   \<and> Duration (fst (Execute (\<lambda>m u. None) (\<lambda>k. k)
       \<lparr> roundTrip = (\<lambda>w q. Inr \<lparr> StatusCode = 404,
                                    Header = [''Set-Cookie'' \<mapsto> [''a'', ''b'']],
                                    resp_Body = \<lparr> payload = ''not found'', read_fails = None,
                                                  read_nanos = 1500000 \<rparr> \<rparr>),
         do_nanos = (\<lambda>w q. 2000000) \<rparr>
       ''GET'' ''http://h/'' [] \<lparr> clock = 7, wire = [] \<rparr>)) = 3"
proof -
  let ?resp = "\<lparr> StatusCode = 404, Header = [''Set-Cookie'' \<mapsto> [''a'', ''b'']],
                 resp_Body = \<lparr> payload = ''not found'', read_fails = None, read_nanos = 1500000 \<rparr> \<rparr>"
  let ?a = "\<lparr> roundTrip = (\<lambda>w q. Inr ?resp), do_nanos = (\<lambda>w q. 2000000) \<rparr>"
  let ?w = "\<lparr> clock = 7, wire = [] \<rparr>"
  let ?E = "Execute (\<lambda>m u. None) (\<lambda>k. k) ?a ''GET'' ''http://h/'' [] ?w"
  have e: "?E = (fst ?E, snd ?E)" by simp
  have i: "(\<lambda>m u. None) ''GET'' ''http://h/'' = None" by simp
  from execute_response[OF e i] obtain req where
    imp: "\<forall>resp. roundTrip ?a ?w req = Inr resp \<longrightarrow>
                  Error (fst ?E) = [] \<and> Status (fst ?E) = StatusCode resp
                \<and> dom (Headers (fst ?E)) = dom (Header resp)
                \<and> (\<forall>k\<in>dom (Header resp). Headers (fst ?E) k = Some (Header_Get (\<lambda>k. k) (Header resp) k))
                \<and> (\<forall>k v vs. Header resp k = Some (v # vs) \<and> (\<lambda>k. k) k = k \<longrightarrow> Headers (fst ?E) k = Some v)
                \<and> (read_fails (resp_Body resp) = None \<longrightarrow> Body (fst ?E) = payload (resp_Body resp))
                \<and> clock (snd ?E) = clock ?w + int (do_nanos ?a ?w req) + int (read_nanos (resp_Body resp))
                \<and> Duration (fst ?E) = Milliseconds (time_Since (snd ?E) (clock ?w))
                \<and> 0 \<le> Duration (fst ?E)"
    by blast
  have rt: "roundTrip ?a ?w req = Inr ?resp" by simp
  note T = imp[rule_format, OF rt]
  from T have 1: "Status (fst ?E) = 404" by simp
  from T have 2: "Error (fst ?E) = []" by simp
  from T have h: "\<forall>k v vs. Header ?resp k = Some (v # vs) \<and> (\<lambda>k. k) k = k \<longrightarrow> Headers (fst ?E) k = Some v"
    by blast
  have 3: "Headers (fst ?E) ''Set-Cookie'' = Some ''a''"
    by (rule h[rule_format, of "''Set-Cookie''" "''a''" "[''b'']"]) simp
  from T have 4: "Body (fst ?E) = ''not found''" by simp
  from T have c: "clock (snd ?E) = clock ?w + int (do_nanos ?a ?w req) + int (read_nanos (resp_Body ?resp))"
    and d: "Duration (fst ?E) = Milliseconds (time_Since (snd ?E) (clock ?w))" by blast+
  have 5: "Duration (fst ?E) = 3"
    unfolding d time_Since_def Let_def c
    by (simp add: Milliseconds_def signed_divide_int_def)
  show ?thesis by (rule conjI[OF 1 conjI[OF 2 conjI[OF 3 conjI[OF 4 5]]]])
qed

text \<open>
  The claim as the specification has it fails on two responses. A response with the two
  values \<open>a\<close> and \<open>b\<close> for \<open>Set-Cookie\<close> gives the header \<open>a\<close>, not the joined value. A
  response with the payload \<open>abcdef\<close> whose read fails after three bytes gives a result
  with no error and the body \<open>abc\<close>, not the payload.
\<close>

theorem execute_response_counterexample:
  "Headers (fst (Execute (\<lambda>m u. None) (\<lambda>k. k)
       \<lparr> roundTrip = (\<lambda>w q. Inr \<lparr> StatusCode = 200,
                                    Header = [''Set-Cookie'' \<mapsto> [''a'', ''b'']],
                                    resp_Body = \<lparr> payload = ''ok'', read_fails = None,
                                                  read_nanos = 0 \<rparr> \<rparr>),
         do_nanos = (\<lambda>w q. 0) \<rparr>
       ''GET'' ''http://h/'' [] \<lparr> clock = 0, wire = [] \<rparr>)) ''Set-Cookie'' = Some ''a''
   \<and> joined [''a'', ''b''] = ''a, b''
   \<and> Headers (fst (Execute (\<lambda>m u. None) (\<lambda>k. k)
       \<lparr> roundTrip = (\<lambda>w q. Inr \<lparr> StatusCode = 200,
                                    Header = [''Set-Cookie'' \<mapsto> [''a'', ''b'']],
                                    resp_Body = \<lparr> payload = ''ok'', read_fails = None,
                                                  read_nanos = 0 \<rparr> \<rparr>),
         do_nanos = (\<lambda>w q. 0) \<rparr>
       ''GET'' ''http://h/'' [] \<lparr> clock = 0, wire = [] \<rparr>)) ''Set-Cookie''
       \<noteq> Some (joined [''a'', ''b''])
   \<and> Error (fst (Execute (\<lambda>m u. None) (\<lambda>k. k)
       \<lparr> roundTrip = (\<lambda>w q. Inr \<lparr> StatusCode = 200, Header = Map.empty,
                                    resp_Body = \<lparr> payload = ''abcdef'',
                                                  read_fails = Some (3, ''unexpected EOF''),
                                                  read_nanos = 0 \<rparr> \<rparr>),
         do_nanos = (\<lambda>w q. 0) \<rparr>
       ''GET'' ''http://h/'' [] \<lparr> clock = 0, wire = [] \<rparr>)) = []
   \<and> Body (fst (Execute (\<lambda>m u. None) (\<lambda>k. k)
       \<lparr> roundTrip = (\<lambda>w q. Inr \<lparr> StatusCode = 200, Header = Map.empty,
                                    resp_Body = \<lparr> payload = ''abcdef'',
                                                  read_fails = Some (3, ''unexpected EOF''),
                                                  read_nanos = 0 \<rparr> \<rparr>),
         do_nanos = (\<lambda>w q. 0) \<rparr>
       ''GET'' ''http://h/'' [] \<lparr> clock = 0, wire = [] \<rparr>)) = ''abc''
   \<and> Body (fst (Execute (\<lambda>m u. None) (\<lambda>k. k)
       \<lparr> roundTrip = (\<lambda>w q. Inr \<lparr> StatusCode = 200, Header = Map.empty,
                                    resp_Body = \<lparr> payload = ''abcdef'',
                                                  read_fails = Some (3, ''unexpected EOF''),
                                                  read_nanos = 0 \<rparr> \<rparr>),
         do_nanos = (\<lambda>w q. 0) \<rparr>
       ''GET'' ''http://h/'' [] \<lparr> clock = 0, wire = [] \<rparr>)) \<noteq> ''abcdef''"
  by (simp add: Execute_def http_NewRequest_def client_Do_def io_ReadAll_def bytes_read_def
        Header_Get_def Let_def)

end
